theory Spec2Isabelle
  imports Main "HOL-Library.AList"
begin

section \<open>The request dispatcher of packages/app/src/app.ts\<close>

text \<open>
  The theory embeds \<^verbatim>\<open>App.handler\<close> and the closures it builds
  (\<^verbatim>\<open>loop\<close>, \<^verbatim>\<open>handle\<close>, \<^verbatim>\<open>nextWithReqAndRes\<close>) together with
  \<^verbatim>\<open>applyHandler\<close> and \<^verbatim>\<open>lead\<close>. A handler is opaque JavaScript; what the
  dispatcher can observe of it is a sequence of actions (finishing the response, calling
  the continuation, throwing, suspending at an await), so a handler is modelled by the
  script of those actions, which it chooses from the request and response it is called
  with. Handlers that assign to \<^verbatim>\<open>req.url\<close> themselves or register entries while
  a request is in flight are outside the model. The JavaScript call stack is explicit (a
  list of suspended scripts), and so is the set of continuations that wait for a later
  turn of the event loop; the order in which these resume is a parameter. All mutation
  of \<^verbatim>\<open>req\<close>, \<^verbatim>\<open>res\<close> and the cursor \<^verbatim>\<open>idx\<close> is state passing.
\<close>

subsection \<open>JavaScript values and truthiness\<close>

text \<open>The values handed to the continuation as \<^verbatim>\<open>err\<close> (type \<^verbatim>\<open>any\<close>).\<close>

datatype jsval =
    Undefined
  | Null
  | JBool bool
  | JNum int
  | JStr string
  | JObj "(string \<times> jsval) list"

text \<open>What \<^verbatim>\<open>err && ...\<close> tests (NaN is not modelled).\<close>

fun truthy :: "jsval \<Rightarrow> bool" where
  "truthy Undefined = False"
| "truthy Null = False"
| "truthy (JBool b) = b"
| "truthy (JNum n) = (n \<noteq> 0)"
| "truthy (JStr s) = (s \<noteq> [])"
| "truthy (JObj fs) = True"

subsection \<open>Request, response, handlers, entries, applications\<close>

record request =
  url :: string
  originalUrl :: string
  path :: string
  req_method :: string
  params :: "(string \<times> string) list"
  route :: "nat option"
  extensions :: "(string \<times> jsval) list"

record response =
  writableEnded :: bool
  statusCode :: nat
  headers :: "(string \<times> string) list"

text \<open>\<^verbatim>\<open>res.setHeader(name, value)\<close>: the header is set, replacing an earlier value.\<close>

definition setHeader :: "response \<Rightarrow> string \<Rightarrow> string \<Rightarrow> response" where
  "setHeader s k v = s\<lparr>headers := (k, v) # filter (\<lambda>kv. fst kv \<noteq> k) (headers s)\<rparr>"

text \<open>
  One observable action of a running handler: \<^verbatim>\<open>res.end()\<close>, \<^verbatim>\<open>next(err)\<close>
  (\<^verbatim>\<open>next()\<close> is \<^verbatim>\<open>next(undefined)\<close>), \<^verbatim>\<open>throw v\<close> (for an async function,
  a rejection), and a suspension (\<^verbatim>\<open>await\<close>, or for a function that is not async a
  callback it has scheduled) after which the rest of the script runs in a later turn of
  the event loop.
\<close>

datatype act = End | Call_next jsval | Throw jsval | Await

type_synonym ErrorHandler = "jsval \<Rightarrow> request \<Rightarrow> response \<Rightarrow> response"

text \<open>
  A handler is either a function, with its name, whether its
  \<^verbatim>\<open>Symbol.toStringTag\<close> is \<^verbatim>\<open>'AsyncFunction'\<close>, and the script it runs on the
  request and response it is given; or \<^verbatim>\<open>onError.bind(null, v)\<close>, the error handler
  with its first argument fixed.
\<close>

datatype Handler =
    Fn string bool "request \<Rightarrow> response \<Rightarrow> act list"
  | Bound ErrorHandler jsval

datatype mtype = Mw | Route

text \<open>\<^verbatim>\<open>Middleware\<close> of the router: \<^verbatim>\<open>{ handler, type, path, method? }\<close>.\<close>

record entry =
  mw_handler :: Handler
  mw_type :: mtype
  mw_path :: string
  mw_method :: "string option"

text \<open>\<^verbatim>\<open>AppSettings\<close>: every field is optional.\<close>

record AppSettings =
  networkExtensions :: "bool option"
  freshnessTesting :: "bool option"
  subdomainOffset :: "nat option"
  bindAppToReqRes :: "bool option"
  xPoweredBy :: "bool option"

text \<open>
  Modelled from the spec: the context-extension hook (\<^verbatim>\<open>extendMiddleware\<close> of
  ./extend is not in src/, and the \<^verbatim>\<open>applyExtensions\<close> option is the caller's) is an
  external collaborator "used to populate derived request fields (query, cookies, IP,
  protocol) that the core does not compute itself": a function from the request and
  response to those fields.
\<close>

type_synonym hook = "request \<Rightarrow> response \<Rightarrow> (string \<times> jsval) list"

text \<open>
  The fields of \<^verbatim>\<open>App\<close> the dispatcher reads. \<^verbatim>\<open>apps\<close> is the router's map
  from mount path to sub-application, as an association list in the order of
  \<^verbatim>\<open>Object.keys\<close>.
\<close>

datatype app = App
  (middleware: "entry list")
  (apps: "(string \<times> app) list")
  (noMatchHandler: Handler)
  (onError: ErrorHandler)
  (settings: AppSettings)
  (applyExtensions: "hook option")

text \<open>
  The collaborators that are imported by app.ts and not defined in it. They are
  parameters of the model: \<^verbatim>\<open>parse(...).pathname\<close> of Node's url module;
  \<^verbatim>\<open>runRegex\<close>, \<^verbatim>\<open>matchParams\<close> and \<^verbatim>\<open>matchLoose\<close> of @tinyhttp/req;
  \<^verbatim>\<open>getURLParams\<close> and \<^verbatim>\<open>getRouteFromApp\<close> of ./request;
  \<^verbatim>\<open>onErrorHandler\<close> of ./onError; \<^verbatim>\<open>extendMiddleware\<close> of ./extend.
  The last field is the event loop's: the order in which the operations that suspended
  continuations wait for complete, as the position, among the continuations pending at
  that moment, of the one that resumes next.
\<close>

record 'r env =
  pathname_of :: "string \<Rightarrow> string"
  runRegex :: "string \<Rightarrow> 'r"
  matchParams :: "'r \<Rightarrow> string \<Rightarrow> bool"
  matchLoose :: "string \<Rightarrow> string \<Rightarrow> bool"
  getURLParams :: "'r \<Rightarrow> string \<Rightarrow> (string \<times> string) list"
  getRouteFromApp :: "app \<Rightarrow> Handler \<Rightarrow> nat option"
  onErrorHandler :: ErrorHandler
  extendMiddleware :: "app \<Rightarrow> hook"
  settle_order :: "nat list"

subsection \<open>The constructor\<close>

record options =
  opt_noMatchHandler :: "Handler option"
  opt_onError :: "ErrorHandler option"
  opt_settings :: "AppSettings option"
  opt_applyExtensions :: "hook option"

definition no_options :: options where
  "no_options = \<lparr>opt_noMatchHandler = None, opt_onError = None, opt_settings = None,
     opt_applyExtensions = None\<rparr>"

definition not_found :: jsval where
  "not_found = JObj [(''code'', JNum 404)]"

text \<open>
  \<^verbatim>\<open>constructor(options = {})\<close>: the middleware list and the mounts start empty;
  \<^verbatim>\<open>onError\<close> and \<^verbatim>\<open>settings\<close> fall back to their defaults and the no-match
  handler to \<^verbatim>\<open>this.onError.bind(null, { code: 404 })\<close>.
\<close>

definition new_App :: "'r env \<Rightarrow> options \<Rightarrow> app" where
  "new_App env opts =
     (let onErr = (case opt_onError opts of Some f \<Rightarrow> f | None \<Rightarrow> onErrorHandler env);
          noMatch = (case opt_noMatchHandler opts of Some h \<Rightarrow> h
                     | None \<Rightarrow> Bound onErr not_found);
          sets = (case opt_settings opts of Some s \<Rightarrow> s
                  | None \<Rightarrow> \<lparr>networkExtensions = None, freshnessTesting = None,
                       subdomainOffset = None, bindAppToReqRes = None,
                       xPoweredBy = Some True\<rparr>)
      in App [] [] noMatch onErr sets (opt_applyExtensions opts))"

subsection \<open>The state of one dispatch\<close>

text \<open>
  What the model records of a run: the handler of the entry at an index of the walked
  list was invoked; the error handler was invoked with an error, the request and the
  response; a thrown value was caught by nobody (the promise of \<^verbatim>\<open>handle\<close>
  rejects and nothing awaits it).
\<close>

datatype event =
    Invoked nat
  | Sink jsval request response
  | Uncaught jsval

text \<open>A suspended script: whether it belongs to an async function, and what is left of it.\<close>

type_synonym frame = "bool \<times> act list"

record state =
  req :: request
  res :: response
  idx :: nat
  trace :: "event list"
  pending :: "frame list"
  schedule :: "nat list"

text \<open>
  The pending continuation that resumes next, out of \<open>m\<close>: the one the schedule names,
  the oldest when the schedule is exhausted.
\<close>

definition next_pending :: "nat list \<Rightarrow> nat \<Rightarrow> nat" where
  "next_pending sch m = (case sch of [] \<Rightarrow> 0 | k # ks \<Rightarrow> k mod m)"

text \<open>\<^verbatim>\<open>lead\<close>: add a leading slash if not present. \<^verbatim>\<open>''.charCodeAt(0)\<close> is NaN.\<close>

fun lead :: "string \<Rightarrow> string" where
  "lead [] = ''/''"
| "lead (c # cs) = (if c = CHR ''/'' then c # cs else CHR ''/'' # c # cs)"

text \<open>\<^verbatim>\<open>a || b\<close> on strings: the empty string is falsy.\<close>

definition or_else :: "string \<Rightarrow> string \<Rightarrow> string" where
  "or_else a b = (if a = [] then b else a)"

text \<open>\<^verbatim>\<open>x.startsWith(p)\<close>.\<close>

definition startsWith :: "string \<Rightarrow> string \<Rightarrow> bool" where
  "startsWith x p = (take (length p) x = p)"

text \<open>
  Lines 215 to 225 of \<^verbatim>\<open>handle\<close>: snapshot \<^verbatim>\<open>originalUrl\<close>, strip as many
  characters as the entry's path has, set \<^verbatim>\<open>req.path\<close>, run the extension hook.
\<close>

definition handle_rewrite :: "'r env \<Rightarrow> app \<Rightarrow> entry \<Rightarrow> request \<Rightarrow> response \<Rightarrow> request" where
  "handle_rewrite env this mw r s =
     (let r1 = r\<lparr>originalUrl := url r\<rparr>;
          r2 = r1\<lparr>url := or_else (lead (drop (length (mw_path mw)) (url r1))) ''/''\<rparr>;
          r3 = r2\<lparr>path := pathname_of env (url r2)\<rparr>
      in r3\<lparr>extensions :=
            (case applyExtensions this of Some f \<Rightarrow> f r3 s
             | None \<Rightarrow> extendMiddleware env this r3 s)\<rparr>)"

subsection \<open>The walk\<close>

text \<open>
  The control points of the dispatcher: the closures \<^verbatim>\<open>loop\<close>, \<^verbatim>\<open>handle(mw)\<close>
  and \<^verbatim>\<open>nextWithReqAndRes(req, res)(err)\<close>, \<^verbatim>\<open>applyHandler(h)\<close>, the body of a
  handler that is running, and the return to the caller.
\<close>

datatype ctl =
    Loop
  | Handle entry
  | ApplyHandler Handler
  | Run bool "act list"
  | NextWithReqAndRes jsval
  | Return

text \<open>
  The walk ends: every step either moves the cursor towards the end of the list or uses
  up part of the scripts that are running, suspended on the call stack or pending. The
  weights below measure the latter (a throw counts twice, for the call of the
  continuation it may leave pending).
\<close>

fun act_weight :: "act \<Rightarrow> nat" where
  "act_weight (Throw v) = 2"
| "act_weight a = 1"

definition frames_weight :: "frame list \<Rightarrow> nat" where
  "frames_weight fs = (\<Sum>f\<leftarrow>fs. 4 * sum_list (map act_weight (snd f)) + 2)"

fun ctl_rank :: "ctl \<Rightarrow> nat" where
  "ctl_rank (Handle e) = 2"
| "ctl_rank (ApplyHandler h) = 1"
| "ctl_rank c = 0"

fun ctl_weight :: "ctl \<Rightarrow> nat" where
  "ctl_weight (Run a as) = 4 * sum_list (map act_weight as) + 1"
| "ctl_weight (NextWithReqAndRes v) = 2"
| "ctl_weight Loop = 1"
| "ctl_weight c = 0"

text \<open>
  \<open>exec env this c ks \<sigma>\<close> runs the dispatcher from control point \<open>c\<close> to the end of the
  request. \<open>this\<close> is the application after \<^verbatim>\<open>mw.push(noMatchMW)\<close>, so that
  \<^verbatim>\<open>mw\<close> is \<open>middleware this\<close> and \<^verbatim>\<open>len\<close> is its length minus one;
  \<open>ks\<close> is the call stack, the scripts of the handlers that called the continuation and
  wait for it to return. When the stack is empty the event loop resumes the pending
  continuation that the schedule names.

  \<^item> \<open>Loop\<close> is \<^verbatim>\<open>loop\<close> (lines 248 to 252). \<^verbatim>\<open>mw[idx++]\<close> is in range because
    \<^verbatim>\<open>len = mw.length - 1\<close>; on an empty list \<^verbatim>\<open>handle(undefined)\<close> rejects
    with a TypeError that nobody catches.
  \<^item> \<open>Handle\<close> is \<^verbatim>\<open>handle\<close> (lines 212 to 246); the entry handled sits at
    \<open>idx - 1\<close>, the cursor having been incremented by \<^verbatim>\<open>loop\<close>.
  \<^item> \<open>ApplyHandler\<close> and \<open>Run\<close> are \<^verbatim>\<open>applyHandler\<close> (lines 19 to 27): a throw of
    an AsyncFunction is caught and \<^verbatim>\<open>next(e)\<close> is called once the await resumes, in
    a later turn; a throw of any other function rejects the promises of
    \<^verbatim>\<open>applyHandler\<close> and \<^verbatim>\<open>handle\<close>, which nobody awaits.
  \<^item> \<open>NextWithReqAndRes\<close> is the continuation (lines 207 to 210).
\<close>

function exec :: "'r env \<Rightarrow> app \<Rightarrow> ctl \<Rightarrow> frame list \<Rightarrow> state \<Rightarrow> state" where
  "exec env this Loop ks \<sigma> =
     (if writableEnded (res \<sigma>) then exec env this Return ks \<sigma>
      else if idx \<sigma> \<le> length (middleware this) - 1 then
        (if idx \<sigma> < length (middleware this)
         then exec env this (Handle (middleware this ! idx \<sigma>)) ks (\<sigma>\<lparr>idx := idx \<sigma> + 1\<rparr>)
         else exec env this Return ks
                (\<sigma>\<lparr>idx := idx \<sigma> + 1, trace := trace \<sigma> @ [Uncaught (JStr ''TypeError'')]\<rparr>))
      else exec env this Return ks \<sigma>)"
| "exec env this (Handle mw) ks \<sigma> =
     (let r = handle_rewrite env this mw (req \<sigma>) (res \<sigma>);
          pathname = pathname_of env (originalUrl r)
      in if mw_type mw = Route \<and> Some (req_method r) = mw_method mw then
           (let regex = runRegex env (mw_path mw)
            in if matchParams env regex pathname then
                 exec env this (ApplyHandler (mw_handler mw)) ks
                   (\<sigma>\<lparr>req := r\<lparr>params := getURLParams env regex pathname,
                                route := getRouteFromApp env this (mw_handler mw)\<rparr>,
                      res := (res \<sigma>)\<lparr>statusCode := 200\<rparr>,
                      trace := trace \<sigma> @ [Invoked (idx \<sigma> - 1)]\<rparr>)
               else exec env this Loop ks (\<sigma>\<lparr>req := r\<lparr>url := originalUrl r\<rparr>\<rparr>))
         else if mw_type mw = Mw \<and> matchLoose env (mw_path mw) pathname then
           exec env this (ApplyHandler (mw_handler mw)) ks
             (\<sigma>\<lparr>req := r, trace := trace \<sigma> @ [Invoked (idx \<sigma> - 1)]\<rparr>)
         else exec env this Loop ks (\<sigma>\<lparr>req := r\<lparr>url := originalUrl r\<rparr>\<rparr>))"
| "exec env this (ApplyHandler (Fn n a body)) ks \<sigma> =
     exec env this (Run a (body (req \<sigma>) (res \<sigma>))) ks \<sigma>"
| "exec env this (ApplyHandler (Bound f v)) ks \<sigma> =
     exec env this Return ks
       (\<sigma>\<lparr>res := f v (req \<sigma>) (res \<sigma>), trace := trace \<sigma> @ [Sink v (req \<sigma>) (res \<sigma>)]\<rparr>)"
| "exec env this (Run a []) ks \<sigma> = exec env this Return ks \<sigma>"
| "exec env this (Run a (End # as)) ks \<sigma> =
     exec env this (Run a as) ks (\<sigma>\<lparr>res := (res \<sigma>)\<lparr>writableEnded := True\<rparr>\<rparr>)"
| "exec env this (Run a (Call_next v # as)) ks \<sigma> =
     exec env this (NextWithReqAndRes v) ((a, as) # ks) \<sigma>"
| "exec env this (Run a (Throw v # as)) ks \<sigma> =
     (if a then exec env this Return ks (\<sigma>\<lparr>pending := pending \<sigma> @ [(False, [Call_next v])]\<rparr>)
      else exec env this Return ks (\<sigma>\<lparr>trace := trace \<sigma> @ [Uncaught v]\<rparr>))"
| "exec env this (Run a (Await # as)) ks \<sigma> =
     exec env this Return ks (\<sigma>\<lparr>pending := pending \<sigma> @ [(a, as)]\<rparr>)"
| "exec env this (NextWithReqAndRes err) ks \<sigma> =
     (if truthy err \<and> \<not> writableEnded (res \<sigma>) then
        exec env this Return ks
          (\<sigma>\<lparr>res := onError this err (req \<sigma>) (res \<sigma>),
             trace := trace \<sigma> @ [Sink err (req \<sigma>) (res \<sigma>)]\<rparr>)
      else exec env this Loop ks \<sigma>)"
| "exec env this Return ((a, as) # ks) \<sigma> = exec env this (Run a as) ks \<sigma>"
| "exec env this Return [] \<sigma> =
     (if pending \<sigma> = [] then \<sigma>
      else (let n = next_pending (schedule \<sigma>) (length (pending \<sigma>));
                f = pending \<sigma> ! n
            in exec env this (Run (fst f) (snd f)) []
                 (\<sigma>\<lparr>pending := take n (pending \<sigma>) @ drop (Suc n) (pending \<sigma>),
                    schedule := tl (schedule \<sigma>)\<rparr>)))"
  by pat_completeness auto

termination
proof -
  have fw_Nil: "frames_weight [] = 0"
    by (simp add: frames_weight_def)
  have fw_Cons: "frames_weight (f # fs) = 4 * sum_list (map act_weight (snd f)) + 2 + frames_weight fs"
    for f fs by (simp add: frames_weight_def)
  have fw_app: "frames_weight (fs @ gs) = frames_weight fs + frames_weight gs" for fs gs
    by (simp add: frames_weight_def)
  have pick: "next_pending sch (length ps) < length ps" if "ps \<noteq> []" for sch and ps :: "frame list"
    using that by (simp add: next_pending_def split: list.splits)
  have taken: "4 * sum_list (map act_weight (snd (ps ! n))) + 1
                 + (frames_weight (take n ps) + frames_weight (drop (Suc n) ps))
               < frames_weight ps"
    if "ps \<noteq> []" and "n = next_pending sch (length ps)" for sch n and ps :: "frame list"
  proof -
    have "n < length ps" using that pick by simp
    then have "ps = take n ps @ ps ! n # drop (Suc n) ps" by (rule id_take_nth_drop)
    then have "frames_weight ps = frames_weight (take n ps @ ps ! n # drop (Suc n) ps)" by simp
    then show ?thesis by (simp add: fw_app fw_Cons)
  qed
  show ?thesis
    apply (relation "measures
       [\<lambda>(env, this, c, ks, \<sigma>). 3 * (length (middleware this) - idx \<sigma>) + ctl_rank c,
        \<lambda>(env, this, c, ks, \<sigma>). ctl_weight c + frames_weight ks + frames_weight (pending \<sigma>)]")
    apply (auto simp: fw_Nil fw_Cons fw_app)
    apply (drule taken[OF _ refl])
    apply simp
    done
qed

subsection \<open>The dispatch entry point\<close>

text \<open>
  Line 189: \<^verbatim>\<open>Object.keys(this.apps).find((x) => req.url.startsWith(x))\<close>.
\<close>

definition subappPath :: "app \<Rightarrow> request \<Rightarrow> string option" where
  "subappPath this r = find (\<lambda>x. startsWith (url r) x) (map fst (apps this))"

text \<open>Lines 196 to 200: the terminal entry.\<close>

definition noMatchMW :: "app \<Rightarrow> entry" where
  "noMatchMW this =
     \<lparr>mw_handler = noMatchHandler this, mw_type = Mw, mw_path = ''/'', mw_method = None\<rparr>"

fun set_middleware :: "app \<Rightarrow> entry list \<Rightarrow> app" where
  "set_middleware (App mw aps nm oe st ax) mw' = App mw' aps nm oe st ax"

fun set_apps :: "app \<Rightarrow> (string \<times> app) list \<Rightarrow> app" where
  "set_apps (App mw aps nm oe st ax) aps' = App mw aps' nm oe st ax"

text \<open>
  Lines 196 to 254: \<^verbatim>\<open>mw.push(noMatchMW)\<close> on \<^verbatim>\<open>this.middleware\<close> itself
  (\<^verbatim>\<open>mw\<close> is an alias of it), then the walk from \<^verbatim>\<open>idx = 0\<close>. The
  application is returned with the list as the push left it.
\<close>

definition pushed :: "app \<Rightarrow> app" where
  "pushed this = set_middleware this (middleware this @ [noMatchMW this])"

definition walk :: "'r env \<Rightarrow> app \<Rightarrow> request \<Rightarrow> response \<Rightarrow> app \<times> state" where
  "walk env this r s =
     (let this' = pushed this
      in (this', exec env this' Loop []
                   \<lparr>req = r, res = s, idx = 0, trace = [], pending = [],
            schedule = settle_order env\<rparr>))"

text \<open>Line 185: \<^verbatim>\<open>if (this.settings?.xPoweredBy === true) res.setHeader(...)\<close>.\<close>

definition powered :: "app \<Rightarrow> response \<Rightarrow> response" where
  "powered this s =
     (if xPoweredBy (settings this) = Some True
      then setHeader s ''X-Powered-By'' ''tinyhttp'' else s)"

text \<open>
  \<^verbatim>\<open>App.handler\<close> (lines 183 to 255). \<^verbatim>\<open>if (subappPath)\<close> is false for
  \<^verbatim>\<open>undefined\<close> and for the empty string. The sub-application found is run on the
  same request and response; its own list grows, so the parent is returned with the
  sub-application as its dispatch left it. A key that \<^verbatim>\<open>find\<close> returns is a key of
  \<^verbatim>\<open>this.apps\<close>; were it not, the call on \<^verbatim>\<open>undefined\<close> would reject.
\<close>

function handler :: "'r env \<Rightarrow> app \<Rightarrow> request \<Rightarrow> response \<Rightarrow> app \<times> state" where
  "handler env this r s =
     (let s1 = powered this s
      in case subappPath this r of
           None \<Rightarrow> walk env this r s1
         | Some p \<Rightarrow>
             if p = [] then walk env this r s1
             else (case map_of (apps this) p of
                     None \<Rightarrow> (this, \<lparr>req = r, res = s1, idx = 0,
                                trace = [Uncaught (JStr ''TypeError'')], pending = [],
                                schedule = settle_order env\<rparr>)
                   | Some sub \<Rightarrow>
                       (case handler env sub r s1 of
                          (sub', \<sigma>) \<Rightarrow> (set_apps this (AList.update p sub' (apps this)), \<sigma>))))"
  by pat_completeness auto
termination
  apply (relation "measure (\<lambda>(env, this, r, s). size this)")
   apply simp
  apply (auto dest!: map_of_SomeD)
  apply (case_tac this)
  apply (simp add: less_Suc_eq_le)
  apply (erule size_list_estimation')
  apply simp
  done

subsection \<open>Matching, hits and misses\<close>

text \<open>
  The kind, method and path constraints of an entry, as \<^verbatim>\<open>handle\<close> tests them
  (lines 227, 230 and 240) on a pathname and a request method.
\<close>

definition satisfied :: "'r env \<Rightarrow> entry \<Rightarrow> string \<Rightarrow> string \<Rightarrow> bool" where
  "satisfied env mw pathname m =
     ((mw_type mw = Route \<and> Some m = mw_method mw
         \<and> matchParams env (runRegex env (mw_path mw)) pathname)
      \<or> (mw_type mw = Mw \<and> matchLoose env (mw_path mw) pathname))"

text \<open>The request after an attempt that did not match: lines 215 to 225, then 237 or 243.\<close>

definition miss :: "'r env \<Rightarrow> app \<Rightarrow> response \<Rightarrow> request \<Rightarrow> entry \<Rightarrow> request" where
  "miss env this s r mw =
     (let r' = handle_rewrite env this mw r s in r'\<lparr>url := originalUrl r'\<rparr>)"

text \<open>The request and response handed to the handler of an entry that matched.\<close>

definition hit_req :: "'r env \<Rightarrow> app \<Rightarrow> entry \<Rightarrow> request \<Rightarrow> response \<Rightarrow> request" where
  "hit_req env this mw r s =
     (let r' = handle_rewrite env this mw r s
      in if mw_type mw = Route then
           r'\<lparr>params := getURLParams env (runRegex env (mw_path mw))
                         (pathname_of env (originalUrl r')),
              route := getRouteFromApp env this (mw_handler mw)\<rparr>
         else r')"

definition hit_res :: "entry \<Rightarrow> response \<Rightarrow> response" where
  "hit_res mw s = (if mw_type mw = Route then s\<lparr>statusCode := 200\<rparr> else s)"

text \<open>
  The request and the response that the handler of the entry at index \<open>j\<close> is called
  with when the entries before it did not match: every earlier attempt has left its
  \<open>miss\<close> on the request, and the attempt at \<open>j\<close> its rewriting.
\<close>

definition handed_req :: "'r env \<Rightarrow> app \<Rightarrow> request \<Rightarrow> response \<Rightarrow> nat \<Rightarrow> request" where
  "handed_req env this r s j =
     (let this' = pushed this; s1 = powered this s
      in hit_req env this' (middleware this' ! j)
           (foldl (miss env this' s1) r (take j (middleware this'))) s1)"

definition handed_res :: "app \<Rightarrow> response \<Rightarrow> nat \<Rightarrow> response" where
  "handed_res this s j = hit_res (middleware (pushed this) ! j) (powered this s)"

subsection \<open>Observations on a run\<close>

text \<open>The indices of the entries whose handlers were invoked, in the order of invocation.\<close>

fun invocations :: "event list \<Rightarrow> nat list" where
  "invocations [] = []"
| "invocations (Invoked i # es) = i # invocations es"
| "invocations (e # es) = invocations es"

text \<open>The errors the error handler was invoked with, in the order of invocation.\<close>

fun sinks :: "event list \<Rightarrow> jsval list" where
  "sinks [] = []"
| "sinks (Sink v r s # es) = v # sinks es"
| "sinks (e # es) = sinks es"

text \<open>
  The control points other than the passage from the finished-check of \<^verbatim>\<open>loop\<close> to
  the call of the handler (\<^verbatim>\<open>handle\<close> and \<^verbatim>\<open>applyHandler\<close>, which run in one
  piece after that check).
\<close>

fun outside_handle :: "ctl \<Rightarrow> bool" where
  "outside_handle (Handle mw) = False"
| "outside_handle (ApplyHandler h) = False"
| "outside_handle c = True"

text \<open>The least index an entry invoked from a control point on can have.\<close>

fun low :: "ctl \<Rightarrow> state \<Rightarrow> nat" where
  "low (Handle mw) \<sigma> = idx \<sigma> - 1"
| "low c \<sigma> = idx \<sigma>"

subsection \<open>The pattern matcher and the error sink of the specification\<close>

text \<open>
  Modelled from the spec: the pathname of a URL (\<^verbatim>\<open>parse(...).pathname\<close> is Node's,
  not in src/): the URL up to its query string or fragment.
\<close>

definition pathname_spec :: "string \<Rightarrow> string" where
  "pathname_spec u = takeWhile (\<lambda>c. c \<noteq> CHR ''?'' \<and> c \<noteq> CHR ''#'') u"

text \<open>
  Modelled from the spec: loose matching (\<^verbatim>\<open>matchLoose\<close> of @tinyhttp/req is not in
  src/): "true iff pathname equals pattern or begins with pattern immediately followed by
  / or end-of-string".
\<close>

definition matchLoose_spec :: "string \<Rightarrow> string \<Rightarrow> bool" where
  "matchLoose_spec pattern pathname =
     (pathname = pattern \<or>
      (startsWith pathname pattern \<and>
       (case drop (length pattern) pathname of [] \<Rightarrow> True | c # cs \<Rightarrow> c = CHR ''/'')))"

text \<open>Modelled from the spec: the pieces of a path between its slashes.\<close>

fun segments :: "string \<Rightarrow> string list" where
  "segments [] = [[]]"
| "segments (c # cs) =
     (if c = CHR ''/'' then [] # segments cs
      else (case segments cs of [] \<Rightarrow> [[c]] | w # ws \<Rightarrow> (c # w) # ws))"

text \<open>
  Modelled from the spec: \<^verbatim>\<open>compile\<close> (\<^verbatim>\<open>runRegex\<close> of @tinyhttp/req is not in
  src/): a pattern or a pathname as its segments between slashes.
\<close>

definition compile :: "string \<Rightarrow> string list" where
  "compile pattern = filter (\<lambda>w. w \<noteq> []) (segments pattern)"

text \<open>Modelled from the spec: the remainder of a path that a wildcard segment captures.\<close>

fun join_slash :: "string list \<Rightarrow> string" where
  "join_slash [] = []"
| "join_slash [w] = w"
| "join_slash (w # ws) = w @ ''/'' @ join_slash ws"

text \<open>
  Modelled from the spec: strict matching (\<^verbatim>\<open>matchParams\<close> and
  \<^verbatim>\<open>getURLParams\<close> are not in src/): "pattern segments are either literals (must
  match exactly, case-sensitively) or named parameters (:name, matches one non-/ segment,
  captured under name). Full-path match required (no unmatched trailing segments) unless
  the pattern explicitly ends in a wildcard segment, which captures the remainder. Returns
  the captured parameter map on success, absent on failure."
\<close>

fun matchStrict :: "string list \<Rightarrow> string list \<Rightarrow> (string \<times> string) list option" where
  "matchStrict [] [] = Some []"
| "matchStrict [] (s # ss) = None"
| "matchStrict (p # ps) ss =
     (if p = ''*'' \<and> ps = [] then Some [(''wild'', join_slash ss)]
      else (case ss of
              [] \<Rightarrow> None
            | s # ss' \<Rightarrow>
                (case p of
                   c # name \<Rightarrow>
                     if c = CHR '':'' then map_option (\<lambda>m. (name, s) # m) (matchStrict ps ss')
                     else if p = s then matchStrict ps ss' else None
                 | [] \<Rightarrow> None)))"

text \<open>
  Modelled from the spec: the Error Sink (\<^verbatim>\<open>onErrorHandler\<close> of ./onError is not in
  src/): it finalizes the response and renders the no-match condition "as a not-found
  response, not a server error".
\<close>

definition sink_spec :: ErrorHandler where
  "sink_spec err r s =
     s\<lparr>writableEnded := True,
       statusCode :=
         (case err of
            JObj fs \<Rightarrow> (case map_of fs ''code'' of Some (JNum n) \<Rightarrow> nat n | _ \<Rightarrow> 500)
          | _ \<Rightarrow> 500)\<rparr>"

text \<open>
  Modelled from the spec: an Error Sink that leaves the response open, as its contract
  allows ("must either finalize the response itself or leave it open").
\<close>

definition sink_open :: ErrorHandler where
  "sink_open err r s = s\<lparr>statusCode := 500\<rparr>"

text \<open>
  Modelled from the spec: the collaborators together, with the continuations resuming
  oldest first.
\<close>

definition spec_env :: "string list env" where
  "spec_env =
     \<lparr>pathname_of = pathname_spec,
      runRegex = compile,
      matchParams = (\<lambda>rx pn. matchStrict rx (compile pn) \<noteq> None),
      matchLoose = matchLoose_spec,
      getURLParams = (\<lambda>rx pn. case matchStrict rx (compile pn) of Some m \<Rightarrow> m | None \<Rightarrow> []),
      getRouteFromApp = (\<lambda>a h. None),
      onErrorHandler = sink_spec,
      extendMiddleware = (\<lambda>a r s. []),
      settle_order = []\<rparr>"

subsection \<open>Sample requests, handlers and applications\<close>

definition incoming :: "string \<Rightarrow> string \<Rightarrow> request" where
  "incoming m u = \<lparr>url = u, originalUrl = [], path = [], req_method = m, params = [],
     route = None, extensions = []\<rparr>"

definition fresh :: response where
  "fresh = \<lparr>writableEnded = False, statusCode = 200, headers = []\<rparr>"

text \<open>\<^verbatim>\<open>app.use(path, h)\<close> and \<^verbatim>\<open>app.get(path, h)\<close> register these entries.\<close>

definition use :: "string \<Rightarrow> Handler \<Rightarrow> entry" where
  "use p h = \<lparr>mw_handler = h, mw_type = Mw, mw_path = p, mw_method = None\<rparr>"

definition get :: "string \<Rightarrow> Handler \<Rightarrow> entry" where
  "get p h = \<lparr>mw_handler = h, mw_type = Route, mw_path = p, mw_method = Some ''GET''\<rparr>"

text \<open>\<^verbatim>\<open>(req, res, next) => next()\<close> and \<^verbatim>\<open>(req, res) => res.end()\<close>.\<close>

definition passes :: Handler where
  "passes = Fn ''passes'' False (\<lambda>r s. [Call_next Undefined])"

definition sends :: Handler where
  "sends = Fn ''sends'' False (\<lambda>r s. [End])"

text \<open>
  An application with a middleware mounted at /api that passes control on, and two routes.
\<close>

definition api_app :: app where
  "api_app = set_middleware (new_App spec_env no_options)
     [use ''/api'' passes, get ''/api/users'' sends, get ''/users/:id'' sends]"

text \<open>Three routes whose patterns overlap on /users/42.\<close>

definition overlap_app :: app where
  "overlap_app = set_middleware (new_App spec_env no_options)
     [get ''/posts/:id'' sends, get ''/users/:id'' sends, get ''/users/42'' sends]"

definition app_of :: "entry list \<Rightarrow> app" where
  "app_of es = set_middleware (new_App spec_env no_options) es"

text \<open>
  \<^verbatim>\<open>() => { throw 'boom' }\<close>;
  \<^verbatim>\<open>async () => { await something; throw 'boom' }\<close>;
  \<^verbatim>\<open>async (req, res) => { res.end(); throw 'boom' }\<close>;
  \<^verbatim>\<open>async () => { throw undefined }\<close>.
\<close>

definition throws_sync :: Handler where
  "throws_sync = Fn ''throws_sync'' False (\<lambda>r s. [Throw (JStr ''boom'')])"

definition throws_async :: Handler where
  "throws_async = Fn ''throws_async'' True (\<lambda>r s. [Await, Throw (JStr ''boom'')])"

definition sends_then_throws :: Handler where
  "sends_then_throws = Fn ''sends_then_throws'' True (\<lambda>r s. [End, Throw (JStr ''boom'')])"

definition rejects_undefined :: Handler where
  "rejects_undefined = Fn ''rejects_undefined'' True (\<lambda>r s. [Throw Undefined])"

text \<open>
  \<^verbatim>\<open>(req, res, next) => { next('first'); next('second'); next() }\<close> and
  \<^verbatim>\<open>(req, res, next) => next(0)\<close>.
\<close>

definition calls_next_twice :: Handler where
  "calls_next_twice = Fn ''calls_next_twice'' False
     (\<lambda>r s. [Call_next (JStr ''first''), Call_next (JStr ''second''), Call_next Undefined])"

definition passes_zero :: Handler where
  "passes_zero = Fn ''passes_zero'' False (\<lambda>r s. [Call_next (JNum 0)])"

text \<open>An application constructed with an \<^verbatim>\<open>onError\<close> option that leaves the response open.\<close>

definition open_sink_app :: "entry list \<Rightarrow> app" where
  "open_sink_app es = set_middleware
     (new_App spec_env (no_options\<lparr>opt_onError := Some sink_open\<rparr>)) es"

text \<open>
  Two moments of a dispatch of GET /, after the handler of entry 0 was invoked: one with
  the response finished and an asynchronous continuation still pending, one with the
  response unfinished.
\<close>

definition finished_state :: state where
  "finished_state =
     \<lparr>req = incoming ''GET'' ''/'', res = fresh\<lparr>writableEnded := True\<rparr>, idx = 1,
      trace = [Invoked 0],
      pending = [(True, [Call_next Undefined, Throw (JStr ''late'')]), (False, [Call_next Null])],
      schedule = [1, 0]\<rparr>"

definition open_state :: state where
  "open_state =
     \<lparr>req = incoming ''GET'' ''/'', res = fresh, idx = 1,
      trace = [Invoked 0], pending = [], schedule = []\<rparr>"

text \<open>
  A parent application with a route for /foobar of its own and a sub-application mounted
  at /foo, which has a route for /foobar as its second entry.
\<close>

definition sub_sends :: Handler where
  "sub_sends = Fn ''sub_sends'' False (\<lambda>r s. [End])"

definition foo_app :: app where
  "foo_app = app_of [get ''/other'' sub_sends, get ''/foobar'' sub_sends]"

definition parent_app :: app where
  "parent_app = set_apps (app_of [get ''/foobar'' sends]) [(''/foo'', foo_app)]"

text \<open>
  A moment of a dispatch of GET / at which an awaiting continuation and the delivery of a
  caught value are pending, the delivery being the one that resumes next.
\<close>

definition caught_state :: state where
  "caught_state =
     \<lparr>req = incoming ''GET'' ''/'', res = fresh, idx = 1, trace = [Invoked 0],
      pending = [(True, [End]), (False, [Call_next (JStr ''boom'')])], schedule = [1]\<rparr>"

section \<open>Properties of the walk\<close>

declare exec.simps [simp del]

declare handler.simps [simp del]

subsection \<open>One attempt: the rewriting, a miss, a hit\<close>

lemma handle_rewrite_originalUrl: "originalUrl (handle_rewrite env this mw r s) = url r"
  by (simp add: handle_rewrite_def Let_def)

lemma handle_rewrite_method: "req_method (handle_rewrite env this mw r s) = req_method r"
  by (simp add: handle_rewrite_def Let_def)

lemma handle_rewrite_url:
  "url (handle_rewrite env this mw r s) = or_else (lead (drop (length (mw_path mw)) (url r))) ''/''"
  by (simp add: handle_rewrite_def Let_def)

lemma lead_nonempty: "lead x \<noteq> []"
  by (cases x) auto

lemma or_else_lead: "or_else (lead x) y = lead x"
  by (simp add: or_else_def lead_nonempty)

lemma miss_url: "url (miss env this s r mw) = url r"
  by (simp add: miss_def Let_def handle_rewrite_originalUrl)

lemma miss_method: "req_method (miss env this s r mw) = req_method r"
  by (simp add: miss_def Let_def handle_rewrite_method)

lemma handle_miss:
  assumes "\<not> satisfied env mw (pathname_of env (url (req \<sigma>))) (req_method (req \<sigma>))"
  shows "exec env this (Handle mw) ks \<sigma> =
         exec env this Loop ks (\<sigma>\<lparr>req := miss env this (res \<sigma>) (req \<sigma>) mw\<rparr>)"
  using assms
  by (auto simp: exec.simps(2) satisfied_def miss_def Let_def handle_rewrite_originalUrl
      handle_rewrite_method)

lemma handle_hit:
  assumes "satisfied env mw (pathname_of env (url (req \<sigma>))) (req_method (req \<sigma>))"
  shows "exec env this (Handle mw) ks \<sigma> =
         exec env this (ApplyHandler (mw_handler mw)) ks
           (\<sigma>\<lparr>req := hit_req env this mw (req \<sigma>) (res \<sigma>), res := hit_res mw (res \<sigma>),
              trace := trace \<sigma> @ [Invoked (idx \<sigma> - 1)]\<rparr>)"
  using assms
  by (auto simp: exec.simps(2) satisfied_def hit_req_def hit_res_def Let_def
      handle_rewrite_originalUrl handle_rewrite_method)

lemma foldl_miss_url: "url (foldl (miss env this s) r es) = url r"
  by (induction es arbitrary: r) (simp_all add: miss_url)

lemma foldl_miss_method: "req_method (foldl (miss env this s) r es) = req_method r"
  by (induction es arbitrary: r) (simp_all add: miss_method)

lemma loop_step:
  assumes "\<not> writableEnded (res \<sigma>)" "idx \<sigma> < length (middleware this)"
  shows "exec env this Loop ks \<sigma> =
         exec env this (Handle (middleware this ! idx \<sigma>)) ks (\<sigma>\<lparr>idx := idx \<sigma> + 1\<rparr>)"
  using assms by (subst exec.simps(1)) auto

lemma loop_skip:
  assumes "\<not> writableEnded (res \<sigma>)" "idx \<sigma> + n \<le> length (middleware this)"
    and "\<forall>k<n. \<not> satisfied env (middleware this ! (idx \<sigma> + k))
                   (pathname_of env (url (req \<sigma>))) (req_method (req \<sigma>))"
  shows "exec env this Loop ks \<sigma> =
         exec env this Loop ks
           (\<sigma>\<lparr>idx := idx \<sigma> + n,
              req := foldl (miss env this (res \<sigma>)) (req \<sigma>) (take n (drop (idx \<sigma>) (middleware this)))\<rparr>)"
  using assms
proof (induction n arbitrary: \<sigma>)
  case 0
  then show ?case by simp
next
  case (Suc n)
  let ?mw = "middleware this"
  let ?e = "?mw ! idx \<sigma>"
  let ?\<sigma>1 = "\<sigma>\<lparr>idx := idx \<sigma> + 1, req := miss env this (res \<sigma>) (req \<sigma>) ?e\<rparr>"
  have lt: "idx \<sigma> < length ?mw" using Suc.prems(2) by simp
  have nm: "\<not> satisfied env ?e (pathname_of env (url (req \<sigma>))) (req_method (req \<sigma>))"
    using Suc.prems(3) by (metis add.right_neutral zero_less_Suc)
  have "exec env this Loop ks \<sigma> = exec env this (Handle ?e) ks (\<sigma>\<lparr>idx := idx \<sigma> + 1\<rparr>)"
    using loop_step[OF Suc.prems(1) lt] .
  also have "\<dots> = exec env this Loop ks ?\<sigma>1"
    using handle_miss[of env ?e "\<sigma>\<lparr>idx := idx \<sigma> + 1\<rparr>" this ks] nm by simp
  also have "\<dots> = exec env this Loop ks
           (?\<sigma>1\<lparr>idx := idx ?\<sigma>1 + n,
              req := foldl (miss env this (res ?\<sigma>1)) (req ?\<sigma>1) (take n (drop (idx ?\<sigma>1) ?mw))\<rparr>)"
  proof (rule Suc.IH)
    show "\<not> writableEnded (res ?\<sigma>1)" using Suc.prems(1) by simp
    show "idx ?\<sigma>1 + n \<le> length ?mw" using Suc.prems(2) by simp
    show "\<forall>k<n. \<not> satisfied env (?mw ! (idx ?\<sigma>1 + k))
                   (pathname_of env (url (req ?\<sigma>1))) (req_method (req ?\<sigma>1))"
      using Suc.prems(3) by (auto simp: miss_url miss_method)
  qed
  finally have eq: "exec env this Loop ks \<sigma> = exec env this Loop ks
           (?\<sigma>1\<lparr>idx := idx ?\<sigma>1 + n,
              req := foldl (miss env this (res ?\<sigma>1)) (req ?\<sigma>1) (take n (drop (idx ?\<sigma>1) ?mw))\<rparr>)" .
  have tk: "take (Suc n) (drop (idx \<sigma>) ?mw) = ?e # take n (drop (Suc (idx \<sigma>)) ?mw)"
    using lt by (simp add: Cons_nth_drop_Suc[symmetric])
  show ?case using eq tk by simp
qed


lemma ended_frozen:
  "writableEnded (res \<sigma>) \<Longrightarrow> outside_handle c \<Longrightarrow>
   (\<exists>evs. trace (exec env this c ks \<sigma>) = trace \<sigma> @ evs \<and> (\<forall>e\<in>set evs. \<exists>v. e = Uncaught v))
   \<and> req (exec env this c ks \<sigma>) = req \<sigma> \<and> res (exec env this c ks \<sigma>) = res \<sigma>
   \<and> idx (exec env this c ks \<sigma>) = idx \<sigma>"
proof (induction env this c ks \<sigma> rule: exec.induct)
  case (1 env this ks \<sigma>)
  then show ?case by (simp add: exec.simps(1))
next
  case (2 env this mw ks \<sigma>)
  then show ?case by simp
next
  case (3 env this n a body ks \<sigma>)
  then show ?case by simp
next
  case (4 env this f v ks \<sigma>)
  then show ?case by simp
next
  case (5 env this a ks \<sigma>)
  then show ?case by (simp add: exec.simps(5))
next
  case (6 env this a as ks \<sigma>)
  then show ?case by (simp add: exec.simps(6))
next
  case (7 env this a v as ks \<sigma>)
  then show ?case by (simp add: exec.simps(7))
next
  case (8 env this a v as ks \<sigma>)
  then show ?case by (cases a) (auto simp add: exec.simps(8))
next
  case (9 env this a as ks \<sigma>)
  then show ?case by (simp add: exec.simps(9))
next
  case (10 env this err ks \<sigma>)
  then show ?case by (simp add: exec.simps(10))
next
  case (11 env this a as ks \<sigma>)
  then show ?case by (simp add: exec.simps(11))
next
  case (12 env this \<sigma>)
  show ?case
  proof (cases "pending \<sigma> = []")
    case True
    then show ?thesis by (simp add: exec.simps(12))
  next
    case False
    from "12.IH"[OF False refl refl] "12.prems" False show ?thesis
      by (simp add: exec.simps(12) Let_def)
  qed
qed


lemma invocations_append: "invocations (xs @ ys) = invocations xs @ invocations ys"
  by (induction xs rule: invocations.induct) simp_all

lemma sinks_append: "sinks (xs @ ys) = sinks xs @ sinks ys"
  by (induction xs rule: sinks.induct) simp_all

lemma only_uncaught_silent:
  "\<forall>e\<in>set evs. \<exists>v. e = Uncaught v \<Longrightarrow> invocations evs = [] \<and> sinks evs = []"
  by (induction evs) auto

lemma ended_silent:
  assumes "writableEnded (res \<sigma>)" "outside_handle c"
  shows "invocations (trace (exec env this c ks \<sigma>)) = invocations (trace \<sigma>)"
    and "sinks (trace (exec env this c ks \<sigma>)) = sinks (trace \<sigma>)"
    and "req (exec env this c ks \<sigma>) = req \<sigma>"
    and "res (exec env this c ks \<sigma>) = res \<sigma>"
    and "idx (exec env this c ks \<sigma>) = idx \<sigma>"
  using ended_frozen[OF assms, of env this ks] only_uncaught_silent
  by (auto simp: invocations_append sinks_append)

lemma apply_floor:
  assumes "\<exists>evs. trace (exec env this c' ks \<sigma>') = trace \<sigma>' @ evs
            \<and> (\<forall>i\<in>set (invocations evs). m \<le> i) \<and> sorted_wrt (<) (invocations evs)"
    and "exec env this c ks \<sigma> = exec env this c' ks \<sigma>'"
    and "trace \<sigma>' = trace \<sigma> @ pre" and "invocations pre = [] \<or> (\<exists>k. invocations pre = [k] \<and> k < m \<and> n \<le> k)"
    and "n \<le> m"
  shows "\<exists>evs. trace (exec env this c ks \<sigma>) = trace \<sigma> @ evs
            \<and> (\<forall>i\<in>set (invocations evs). n \<le> i) \<and> sorted_wrt (<) (invocations evs)"
proof -
  from assms(1) obtain evs where e: "trace (exec env this c' ks \<sigma>') = trace \<sigma>' @ evs"
    "\<forall>i\<in>set (invocations evs). m \<le> i" "sorted_wrt (<) (invocations evs)" by blast
  have "trace (exec env this c ks \<sigma>) = trace \<sigma> @ (pre @ evs)"
    using e(1) assms(2,3) by simp
  moreover have "\<forall>i\<in>set (invocations (pre @ evs)). n \<le> i"
    using e(2) assms(4,5) by (auto simp: invocations_append)
  moreover have "sorted_wrt (<) (invocations (pre @ evs))"
  proof -
    have ge: "m \<le> x" if "x \<in> set (invocations evs)" for x using e(2) that by blast
    have "k < x" if "k < m" "x \<in> set (invocations evs)" for k x
      using ge[OF that(2)] that(1) by simp
    then show ?thesis using e(3) assms(4) by (auto simp: invocations_append)
  qed
  ultimately show ?thesis by blast
qed

lemma trace_grows:
  "outside_handle c \<or> 0 < idx \<sigma> \<Longrightarrow>
   \<exists>evs. trace (exec env this c ks \<sigma>) = trace \<sigma> @ evs
         \<and> (\<forall>i\<in>set (invocations evs). low c \<sigma> \<le> i) \<and> sorted_wrt (<) (invocations evs)"
proof (induction env this c ks \<sigma> rule: exec.induct)
  case (1 env this ks \<sigma>)
  show ?case
  proof (cases "\<not> writableEnded (res \<sigma>) \<and> idx \<sigma> \<le> length (middleware this) - 1")
    case False
    show ?thesis
    proof (rule apply_floor[where pre = "[]"])
      show "\<exists>evs. trace (exec env this Return ks \<sigma>) = trace \<sigma> @ evs
            \<and> (\<forall>i\<in>set (invocations evs). low Return \<sigma> \<le> i) \<and> sorted_wrt (<) (invocations evs)"
        using "1.IH"(1,4) False by auto
      show "exec env this Loop ks \<sigma> = exec env this Return ks \<sigma>"
        using False by (subst exec.simps(1)) auto
    qed simp_all
  next
    case True
    show ?thesis
    proof (cases "idx \<sigma> < length (middleware this)")
      case lt: True
      let ?\<sigma>' = "\<sigma>\<lparr>idx := idx \<sigma> + 1\<rparr>"
      show ?thesis
      proof (rule apply_floor[where pre = "[]"])
        show "\<exists>evs. trace (exec env this (Handle (middleware this ! idx \<sigma>)) ks ?\<sigma>') = trace ?\<sigma>' @ evs
            \<and> (\<forall>i\<in>set (invocations evs). low (Handle (middleware this ! idx \<sigma>)) ?\<sigma>' \<le> i)
            \<and> sorted_wrt (<) (invocations evs)"
          using "1.IH"(2)[OF _ _ lt] True by simp
        show "exec env this Loop ks \<sigma> = exec env this (Handle (middleware this ! idx \<sigma>)) ks ?\<sigma>'"
          using True lt by (subst exec.simps(1)) auto
      qed simp_all
    next
      case ge: False
      let ?\<sigma>' = "\<sigma>\<lparr>idx := idx \<sigma> + 1, trace := trace \<sigma> @ [Uncaught (JStr ''TypeError'')]\<rparr>"
      show ?thesis
      proof (rule apply_floor[where pre = "[Uncaught (JStr ''TypeError'')]"])
        show "\<exists>evs. trace (exec env this Return ks ?\<sigma>') = trace ?\<sigma>' @ evs
            \<and> (\<forall>i\<in>set (invocations evs). low Return ?\<sigma>' \<le> i) \<and> sorted_wrt (<) (invocations evs)"
          using "1.IH"(3)[OF _ _ ge] True by simp
        show "exec env this Loop ks \<sigma> = exec env this Return ks ?\<sigma>'"
          using True ge by (subst exec.simps(1)) auto
      qed simp_all
    qed
  qed
next
  case (2 env this mw ks \<sigma>)
  let ?pn = "pathname_of env (url (req \<sigma>))"
  show ?case
  proof (cases "satisfied env mw ?pn (req_method (req \<sigma>))")
    case hit: True
    let ?\<sigma>' = "\<sigma>\<lparr>req := hit_req env this mw (req \<sigma>) (res \<sigma>), res := hit_res mw (res \<sigma>),
                 trace := trace \<sigma> @ [Invoked (idx \<sigma> - 1)]\<rparr>"
    have ih: "\<exists>evs. trace (exec env this (ApplyHandler (mw_handler mw)) ks ?\<sigma>') = trace ?\<sigma>' @ evs
            \<and> (\<forall>i\<in>set (invocations evs). low (ApplyHandler (mw_handler mw)) ?\<sigma>' \<le> i)
            \<and> sorted_wrt (<) (invocations evs)"
    proof (cases "mw_type mw = Route \<and> Some (req_method (req \<sigma>)) = mw_method mw")
      case True
      with hit have mp: "matchParams env (runRegex env (mw_path mw)) ?pn"
        by (auto simp: satisfied_def)
      from "2.IH"(1)[OF refl refl _ refl] "2.prems" True mp show ?thesis
        by (simp add: hit_req_def hit_res_def Let_def handle_rewrite_originalUrl
            handle_rewrite_method)
    next
      case False
      with hit have ml: "mw_type mw = Mw \<and> matchLoose env (mw_path mw) ?pn"
        by (auto simp: satisfied_def)
      from "2.IH"(3)[OF refl refl] "2.prems" False ml show ?thesis
        by (simp add: hit_req_def hit_res_def Let_def handle_rewrite_originalUrl
            handle_rewrite_method)
    qed
    show ?thesis
    proof (cases "idx \<sigma>")
      case 0
      with "2.prems" show ?thesis by simp
    next
      case (Suc k)
      show ?thesis
        by (rule apply_floor[where pre = "[Invoked k]" and \<sigma>' = ?\<sigma>' and m = "Suc k"
              and c' = "ApplyHandler (mw_handler mw)"])
           (use ih handle_hit[OF hit, of this ks] Suc in auto)
    qed
  next
    case nohit: False
    let ?\<sigma>' = "\<sigma>\<lparr>req := miss env this (res \<sigma>) (req \<sigma>) mw\<rparr>"
    have ih: "\<exists>evs. trace (exec env this Loop ks ?\<sigma>') = trace ?\<sigma>' @ evs
            \<and> (\<forall>i\<in>set (invocations evs). low Loop ?\<sigma>' \<le> i) \<and> sorted_wrt (<) (invocations evs)"
    proof (cases "mw_type mw = Route \<and> Some (req_method (req \<sigma>)) = mw_method mw")
      case True
      with nohit have mp: "\<not> matchParams env (runRegex env (mw_path mw)) ?pn"
        by (auto simp: satisfied_def)
      from "2.IH"(2)[OF refl refl _ refl] "2.prems" True mp show ?thesis
        by (simp add: miss_def Let_def handle_rewrite_originalUrl handle_rewrite_method)
    next
      case False
      with nohit have ml: "\<not> (mw_type mw = Mw \<and> matchLoose env (mw_path mw) ?pn)"
        by (auto simp: satisfied_def)
      from "2.IH"(4)[OF refl refl] "2.prems" False ml show ?thesis
        by (simp add: miss_def Let_def handle_rewrite_originalUrl handle_rewrite_method)
    qed
    show ?thesis
      by (rule apply_floor[where pre = "[]" and \<sigma>' = ?\<sigma>' and m = "idx \<sigma>" and c' = Loop])
         (use ih handle_miss[OF nohit, of this ks] in auto)
  qed
next
  case (3 env this n a body ks \<sigma>)
  then show ?case by (simp add: exec.simps(3))
next
  case (4 env this f v ks \<sigma>)
  show ?case
    by (rule apply_floor[where pre = "[Sink v (req \<sigma>) (res \<sigma>)]" and m = "idx \<sigma>" and c' = Return
          and \<sigma>' = "\<sigma>\<lparr>res := f v (req \<sigma>) (res \<sigma>), trace := trace \<sigma> @ [Sink v (req \<sigma>) (res \<sigma>)]\<rparr>"])
       (use 4 in \<open>auto simp: exec.simps(4)\<close>)
next
  case (5 env this a ks \<sigma>)
  then show ?case by (simp add: exec.simps(5))
next
  case (6 env this a as ks \<sigma>)
  then show ?case by (simp add: exec.simps(6))
next
  case (7 env this a v as ks \<sigma>)
  then show ?case by (simp add: exec.simps(7))
next
  case (8 env this a v as ks \<sigma>)
  show ?case
  proof (cases a)
    case True
    with 8 show ?thesis by (simp add: exec.simps(8))
  next
    case False
    show ?thesis
      by (rule apply_floor[where pre = "[Uncaught v]" and m = "idx \<sigma>" and c' = Return
            and \<sigma>' = "\<sigma>\<lparr>trace := trace \<sigma> @ [Uncaught v]\<rparr>"])
         (use "8.IH"(2) False in \<open>auto simp: exec.simps(8)\<close>)
  qed
next
  case (9 env this a as ks \<sigma>)
  then show ?case by (simp add: exec.simps(9))
next
  case (10 env this err ks \<sigma>)
  show ?case
  proof (cases "truthy err \<and> \<not> writableEnded (res \<sigma>)")
    case True
    show ?thesis
      by (rule apply_floor[where pre = "[Sink err (req \<sigma>) (res \<sigma>)]" and m = "idx \<sigma>" and c' = Return
            and \<sigma>' = "\<sigma>\<lparr>res := onError this err (req \<sigma>) (res \<sigma>),
                          trace := trace \<sigma> @ [Sink err (req \<sigma>) (res \<sigma>)]\<rparr>"])
         (use "10.IH"(1) True in \<open>auto simp: exec.simps(10)\<close>)
  next
    case False
    with "10.IH"(2) show ?thesis by (auto simp: exec.simps(10))
  qed
next
  case (11 env this a as ks \<sigma>)
  then show ?case by (simp add: exec.simps(11))
next
  case (12 env this \<sigma>)
  show ?case
  proof (cases "pending \<sigma> = []")
    case True
    then show ?thesis by (simp add: exec.simps(12))
  next
    case False
    from "12.IH"[OF False refl refl] False show ?thesis
      by (simp add: exec.simps(12) Let_def)
  qed
qed

subsection \<open>The entry point\<close>

lemma middleware_set_middleware [simp]: "middleware (set_middleware this m) = m"
  by (cases this) simp

lemma apps_set_middleware [simp]: "apps (set_middleware this m) = apps this"
  by (cases this) simp

lemma onError_set_middleware [simp]: "onError (set_middleware this m) = onError this"
  by (cases this) simp

lemma noMatchHandler_set_middleware [simp]:
  "noMatchHandler (set_middleware this m) = noMatchHandler this"
  by (cases this) simp

lemma middleware_set_apps [simp]: "middleware (set_apps this a) = middleware this"
  by (cases this) simp

lemma handler_walk:
  assumes "subappPath this r = None \<or> subappPath this r = Some []"
  shows "handler env this r s = walk env this r (powered this s)"
  using assms by (auto simp: handler.simps Let_def)

lemma powered_writableEnded [simp]: "writableEnded (powered this s) = writableEnded s"
  by (simp add: powered_def setHeader_def)

subsection \<open>From the arrival of a request to the first handler\<close>

lemma middleware_pushed [simp]: "middleware (pushed this) = middleware this @ [noMatchMW this]"
  by (simp add: pushed_def)

lemma onError_pushed [simp]: "onError (pushed this) = onError this"
  by (simp add: pushed_def)

lemma loop_to_hit:
  assumes "\<not> writableEnded (res \<sigma>)" "idx \<sigma> + n < length (middleware this)"
    and "\<forall>k<n. \<not> satisfied env (middleware this ! (idx \<sigma> + k))
                   (pathname_of env (url (req \<sigma>))) (req_method (req \<sigma>))"
    and "satisfied env (middleware this ! (idx \<sigma> + n))
                   (pathname_of env (url (req \<sigma>))) (req_method (req \<sigma>))"
  shows "exec env this Loop ks \<sigma> =
         exec env this (ApplyHandler (mw_handler (middleware this ! (idx \<sigma> + n)))) ks
           (\<sigma>\<lparr>idx := idx \<sigma> + n + 1,
              req := hit_req env this (middleware this ! (idx \<sigma> + n))
                       (foldl (miss env this (res \<sigma>)) (req \<sigma>)
                          (take n (drop (idx \<sigma>) (middleware this)))) (res \<sigma>),
              res := hit_res (middleware this ! (idx \<sigma> + n)) (res \<sigma>),
              trace := trace \<sigma> @ [Invoked (idx \<sigma> + n)]\<rparr>)"
proof -
  let ?mw = "middleware this"
  let ?r = "foldl (miss env this (res \<sigma>)) (req \<sigma>) (take n (drop (idx \<sigma>) ?mw))"
  let ?\<sigma>1 = "\<sigma>\<lparr>idx := idx \<sigma> + n, req := ?r\<rparr>"
  let ?\<sigma>2 = "?\<sigma>1\<lparr>idx := idx ?\<sigma>1 + 1\<rparr>"
  have "exec env this Loop ks \<sigma> = exec env this Loop ks ?\<sigma>1"
    using loop_skip[OF assms(1) _ assms(3), where ks = ks] assms(2) by simp
  also have "\<dots> = exec env this (Handle (?mw ! idx ?\<sigma>1)) ks ?\<sigma>2"
    by (rule loop_step) (use assms in simp_all)
  also have "\<dots> = exec env this (ApplyHandler (mw_handler (?mw ! idx ?\<sigma>1))) ks
           (?\<sigma>2\<lparr>req := hit_req env this (?mw ! idx ?\<sigma>1) (req ?\<sigma>2) (res ?\<sigma>2),
                 res := hit_res (?mw ! idx ?\<sigma>1) (res ?\<sigma>2),
                 trace := trace ?\<sigma>2 @ [Invoked (idx ?\<sigma>2 - 1)]\<rparr>)"
    by (rule handle_hit) (use assms(4) in \<open>simp add: foldl_miss_url foldl_miss_method\<close>)
  finally show ?thesis by simp
qed

lemma first_hit:
  assumes nd: "subappPath this r = None \<or> subappPath this r = Some []"
    and "\<not> writableEnded s"
    and "j < length (middleware (pushed this))"
    and "satisfied env (middleware (pushed this) ! j) (pathname_of env (url r)) (req_method r)"
    and "\<forall>i<j. \<not> satisfied env (middleware (pushed this) ! i)
                  (pathname_of env (url r)) (req_method r)"
  shows "snd (handler env this r s) =
         exec env (pushed this) (ApplyHandler (mw_handler (middleware (pushed this) ! j))) []
           \<lparr>req = handed_req env this r s j, res = handed_res this s j, idx = j + 1,
            trace = [Invoked j], pending = [],
            schedule = settle_order env\<rparr>"
proof -
  let ?\<sigma> = "\<lparr>req = r, res = powered this s, idx = 0, trace = [], pending = [],
            schedule = settle_order env\<rparr>"
  have "snd (handler env this r s) = exec env (pushed this) Loop [] ?\<sigma>"
    using nd by (simp add: handler_walk walk_def Let_def)
  also have "\<dots> = exec env (pushed this)
        (ApplyHandler (mw_handler (middleware (pushed this) ! (idx ?\<sigma> + j)))) []
        (?\<sigma>\<lparr>idx := idx ?\<sigma> + j + 1,
            req := hit_req env (pushed this) (middleware (pushed this) ! (idx ?\<sigma> + j))
                     (foldl (miss env (pushed this) (res ?\<sigma>)) (req ?\<sigma>)
                        (take j (drop (idx ?\<sigma>) (middleware (pushed this))))) (res ?\<sigma>),
            res := hit_res (middleware (pushed this) ! (idx ?\<sigma> + j)) (res ?\<sigma>),
            trace := trace ?\<sigma> @ [Invoked (idx ?\<sigma> + j)]\<rparr>)"
    by (rule loop_to_hit) (use assms in simp_all)
  finally show ?thesis by (simp add: handed_req_def handed_res_def Let_def)
qed

lemmas sample_defs =
  subappPath_def new_App_def no_options_def Let_def noMatchMW_def incoming_def fresh_def
  use_def get_def passes_def sends_def spec_env_def pathname_spec_def matchLoose_spec_def
  compile_def startsWith_def satisfied_def powered_def setHeader_def pushed_def walk_def
  handle_rewrite_def or_else_def sink_spec_def sink_open_def not_found_def next_pending_def

lemma hit_res_writableEnded [simp]: "writableEnded (hit_res mw s) = writableEnded s"
  by (simp add: hit_res_def)

lemma handed_res_writableEnded [simp]: "writableEnded (handed_res this s j) = writableEnded s"
  by (simp add: handed_res_def)

lemma next_pending_single [simp]: "next_pending sch (Suc 0) = 0"
  by (simp add: next_pending_def split: list.splits)

lemma return_single:
  "pending \<sigma> = [(a, as)] \<Longrightarrow>
   exec env this Return [] \<sigma> =
   exec env this (Run a as) [] (\<sigma>\<lparr>pending := [], schedule := tl (schedule \<sigma>)\<rparr>)"
  by (simp add: exec.simps(12) Let_def)

lemma run_awaits:
  "pending \<sigma> = [] \<Longrightarrow>
   exec env this (Run a (replicate k Await @ as)) [] \<sigma> =
   exec env this (Run a as) [] (\<sigma>\<lparr>schedule := drop k (schedule \<sigma>)\<rparr>)"
proof (induction k arbitrary: \<sigma>)
  case 0
  then show ?case by simp
next
  case (Suc k)
  let ?\<sigma>1 = "\<sigma>\<lparr>pending := [(a, replicate k Await @ as)]\<rparr>"
  let ?\<sigma>2 = "\<sigma>\<lparr>schedule := tl (schedule \<sigma>)\<rparr>"
  have "exec env this (Run a (replicate (Suc k) Await @ as)) [] \<sigma> = exec env this Return [] ?\<sigma>1"
    using Suc.prems by (simp add: exec.simps(9))
  also have "\<dots> = exec env this (Run a (replicate k Await @ as)) []
                      (?\<sigma>1\<lparr>pending := [], schedule := tl (schedule ?\<sigma>1)\<rparr>)"
    by (rule return_single) simp
  also have "?\<sigma>1\<lparr>pending := [], schedule := tl (schedule ?\<sigma>1)\<rparr> = ?\<sigma>2"
    using Suc.prems by simp
  also have "exec env this (Run a (replicate k Await @ as)) [] ?\<sigma>2
           = exec env this (Run a as) [] (?\<sigma>2\<lparr>schedule := drop k (schedule ?\<sigma>2)\<rparr>)"
    by (rule Suc.IH) (use Suc.prems in simp)
  finally show ?case by (simp add: drop_Suc)
qed

lemma next_error_alone:
  assumes "truthy v" "\<not> writableEnded (res \<sigma>)" "pending \<sigma> = []"
  shows "exec env this (Run False [Call_next v]) [] \<sigma> =
         \<sigma>\<lparr>res := onError this v (req \<sigma>) (res \<sigma>),
           trace := trace \<sigma> @ [Sink v (req \<sigma>) (res \<sigma>)]\<rparr>"
  using assms by (simp add: exec.simps)

subsection \<open>A handler that throws, from the arrival of the request on\<close>

lemma first_hit_run:
  assumes "subappPath this r = None \<or> subappPath this r = Some []"
    and "\<not> writableEnded s"
    and "j < length (middleware this @ [noMatchMW this])"
    and "satisfied env ((middleware this @ [noMatchMW this]) ! j)
           (pathname_of env (url r)) (req_method r)"
    and "\<forall>i<j. \<not> satisfied env ((middleware this @ [noMatchMW this]) ! i)
           (pathname_of env (url r)) (req_method r)"
    and "mw_handler ((middleware this @ [noMatchMW this]) ! j) = Fn n a body"
  shows "snd (handler env this r s) =
         exec env (pushed this)
           (Run a (body (handed_req env this r s j) (handed_res this s j))) []
           \<lparr>req = handed_req env this r s j, res = handed_res this s j, idx = j + 1,
            trace = [Invoked j], pending = [], schedule = settle_order env\<rparr>"
proof -
  have "snd (handler env this r s) =
         exec env (pushed this) (ApplyHandler (mw_handler (middleware (pushed this) ! j))) []
           \<lparr>req = handed_req env this r s j, res = handed_res this s j, idx = j + 1,
            trace = [Invoked j], pending = [], schedule = settle_order env\<rparr>"
    by (rule first_hit) (use assms in simp_all)
  then show ?thesis using assms(6) by (simp add: exec.simps(3))
qed

lemma async_throw_end_to_end:
  assumes "subappPath this r = None \<or> subappPath this r = Some []"
    and "\<not> writableEnded s"
    and "j < length (middleware this @ [noMatchMW this])"
    and "satisfied env ((middleware this @ [noMatchMW this]) ! j)
           (pathname_of env (url r)) (req_method r)"
    and "\<forall>i<j. \<not> satisfied env ((middleware this @ [noMatchMW this]) ! i)
           (pathname_of env (url r)) (req_method r)"
    and "mw_handler ((middleware this @ [noMatchMW this]) ! j) = Fn n a body"
    and "(a \<and> body (handed_req env this r s j) (handed_res this s j)
                = replicate k Await @ Throw v # post)
       \<or> (\<not> a \<and> body (handed_req env this r s j) (handed_res this s j) = [Call_next v])"
    and "truthy v"
  shows "trace (snd (handler env this r s)) =
           [Invoked j, Sink v (handed_req env this r s j) (handed_res this s j)]
       \<and> res (snd (handler env this r s)) =
           onError this v (handed_req env this r s j) (handed_res this s j)"
proof -
  let ?\<sigma> = "\<lparr>req = handed_req env this r s j, res = handed_res this s j, idx = j + 1,
            trace = [Invoked j], pending = [], schedule = settle_order env\<rparr>"
  let ?body = "body (handed_req env this r s j) (handed_res this s j)"
  let ?goal = "\<lambda>\<tau>. trace \<tau> = [Invoked j, Sink v (handed_req env this r s j) (handed_res this s j)]
                 \<and> res \<tau> = onError this v (handed_req env this r s j) (handed_res this s j)"
  have run: "snd (handler env this r s) = exec env (pushed this) (Run a ?body) [] ?\<sigma>"
    by (rule first_hit_run) (use assms in simp_all)
  have deliver: "?goal (exec env (pushed this) (Run False [Call_next v]) [] (?\<sigma>\<lparr>schedule := sch\<rparr>))"
    for sch
    using next_error_alone[of v "?\<sigma>\<lparr>schedule := sch\<rparr>" env "pushed this"] assms(2,8) by simp
  from assms(7) show ?thesis
  proof
    assume async: "a \<and> ?body = replicate k Await @ Throw v # post"
    let ?\<sigma>k = "?\<sigma>\<lparr>schedule := drop k (schedule ?\<sigma>)\<rparr>"
    have "exec env (pushed this) (Run a ?body) [] ?\<sigma>
        = exec env (pushed this) (Run True (Throw v # post)) [] ?\<sigma>k"
      using async run_awaits[of ?\<sigma> env "pushed this" True k "Throw v # post"] by simp
    also have "\<dots> = exec env (pushed this) Return [] (?\<sigma>k\<lparr>pending := [(False, [Call_next v])]\<rparr>)"
      by (simp add: exec.simps(8))
    also have "\<dots> = exec env (pushed this) (Run False [Call_next v]) []
                        (?\<sigma>\<lparr>schedule := tl (drop k (schedule ?\<sigma>))\<rparr>)"
      by (subst return_single[where a = False and as = "[Call_next v]"]) simp_all
    finally show ?thesis using run deliver[of "tl (drop k (schedule ?\<sigma>))"] by simp
  next
    assume sync: "\<not> a \<and> ?body = [Call_next v]"
    then show ?thesis using run deliver[of "settle_order env"] by simp
  qed
qed

lemma sync_throw_end_to_end:
  assumes "subappPath this r = None \<or> subappPath this r = Some []"
    and "\<not> writableEnded s"
    and "j < length (middleware this @ [noMatchMW this])"
    and "satisfied env ((middleware this @ [noMatchMW this]) ! j)
           (pathname_of env (url r)) (req_method r)"
    and "\<forall>i<j. \<not> satisfied env ((middleware this @ [noMatchMW this]) ! i)
           (pathname_of env (url r)) (req_method r)"
    and "mw_handler ((middleware this @ [noMatchMW this]) ! j) = Fn n False body"
    and "body (handed_req env this r s j) (handed_res this s j) = Throw v # post"
  shows "trace (snd (handler env this r s)) = [Invoked j, Uncaught v]
       \<and> sinks (trace (snd (handler env this r s))) = []
       \<and> idx (snd (handler env this r s)) = j + 1
       \<and> res (snd (handler env this r s)) = handed_res this s j"
  using first_hit_run[OF assms(1-6)] assms(7) by (simp add: exec.simps)

subsection \<open>Mounts\<close>

lemma hit_req_url:
  "url (hit_req env this mw r s) = lead (drop (length (mw_path mw)) (url r))"
  by (simp add: hit_req_def Let_def handle_rewrite_url or_else_lead)

lemma hit_req_originalUrl: "originalUrl (hit_req env this mw r s) = url r"
  by (simp add: hit_req_def Let_def handle_rewrite_originalUrl)

lemma map_of_first_key:
  "i < length xs \<Longrightarrow> \<forall>k<i. fst (xs ! k) \<noteq> fst (xs ! i) \<Longrightarrow>
   map_of xs (fst (xs ! i)) = Some (snd (xs ! i))"
proof (induction xs arbitrary: i)
  case Nil
  then show ?case by simp
next
  case (Cons x xs)
  show ?case
  proof (cases i)
    case 0
    then show ?thesis by (cases x) simp
  next
    case (Suc n)
    have "fst x \<noteq> fst ((x # xs) ! i)" using Cons.prems(2) Suc by fastforce
    moreover have "map_of xs (fst (xs ! n)) = Some (snd (xs ! n))"
    proof (rule Cons.IH)
      show "n < length xs" using Cons.prems(1) Suc by simp
      show "\<forall>k<n. fst (xs ! k) \<noteq> fst (xs ! n)"
        using Cons.prems(2) Suc by fastforce
    qed
    ultimately show ?thesis using Suc by (cases x) auto
  qed
qed

lemma subappPath_first:
  assumes "i < length (apps this)"
    and "startsWith (url r) (fst (apps this ! i))"
    and "\<forall>k<i. \<not> startsWith (url r) (fst (apps this ! k))"
  shows "subappPath this r = Some (fst (apps this ! i))"
    and "map_of (apps this) (fst (apps this ! i)) = Some (snd (apps this ! i))"
proof -
  show "subappPath this r = Some (fst (apps this ! i))"
    unfolding subappPath_def find_Some_iff
    using assms by (intro exI[of _ i]) simp
  show "map_of (apps this) (fst (apps this ! i)) = Some (snd (apps this ! i))"
    by (rule map_of_first_key) (use assms in auto)
qed

subsection \<open>What an attempt matches against\<close>

text \<open>
  At every attempt the pathname matched is that of \<^verbatim>\<open>req.url\<close> as it is when the
  attempt begins, which \<^verbatim>\<open>handle\<close> first copies into \<^verbatim>\<open>originalUrl\<close>. After a
  miss the url is what it was before the attempt; after a hit it is the stripped one, and
  a continuation called without error re-enters \<^verbatim>\<open>loop\<close> with the request
  unchanged.
\<close>

lemma matching_uses_current_url:
  "exec env this (Handle mw) ks \<sigma> =
     (if satisfied env mw (pathname_of env (url (req \<sigma>))) (req_method (req \<sigma>))
      then exec env this (ApplyHandler (mw_handler mw)) ks
             (\<sigma>\<lparr>req := hit_req env this mw (req \<sigma>) (res \<sigma>), res := hit_res mw (res \<sigma>),
                trace := trace \<sigma> @ [Invoked (idx \<sigma> - 1)]\<rparr>)
      else exec env this Loop ks (\<sigma>\<lparr>req := miss env this (res \<sigma>) (req \<sigma>) mw\<rparr>))
   \<and> originalUrl (hit_req env this mw (req \<sigma>) (res \<sigma>)) = url (req \<sigma>)
   \<and> url (hit_req env this mw (req \<sigma>) (res \<sigma>))
       = lead (drop (length (mw_path mw)) (url (req \<sigma>)))
   \<and> url (miss env this (res \<sigma>) (req \<sigma>) mw) = url (req \<sigma>)
   \<and> (\<not> truthy v \<longrightarrow>
        exec env this (Run a (Call_next v # as)) ks \<sigma> = exec env this Loop ((a, as) # ks) \<sigma>)"
  using handle_hit[of env mw \<sigma> this ks] handle_miss[of env mw \<sigma> this ks]
  by (simp add: hit_req_url hit_req_originalUrl miss_url exec.simps(7) exec.simps(10))

section \<open>The claims\<close>

text \<open>
  C1. For every request that is not delegated to a sub-application and arrives with an
  unfinished response, and every list of entries: if \<open>j\<close> is the first index, in
  registration order, of an entry whose kind, method and path constraints the request
  satisfies, then the first thing the dispatch does is invoke the handler of entry
  \<open>j\<close>; handlers are invoked in strictly increasing order of index, so every other
  invocation comes after that one and belongs to a later entry; and no entry before
  \<open>j\<close> ever has its handler invoked.
\<close>

theorem first_match_wins:
  assumes "subappPath this r = None \<or> subappPath this r = Some []"
    and "\<not> writableEnded s"
    and "j < length (middleware this @ [noMatchMW this])"
    and "satisfied env ((middleware this @ [noMatchMW this]) ! j)
           (pathname_of env (url r)) (req_method r)"
    and "\<forall>i<j. \<not> satisfied env ((middleware this @ [noMatchMW this]) ! i)
           (pathname_of env (url r)) (req_method r)"
  shows "take 1 (trace (snd (handler env this r s))) = [Invoked j]
       \<and> sorted_wrt (<) (invocations (trace (snd (handler env this r s))))
       \<and> (\<forall>i<j. i \<notin> set (invocations (trace (snd (handler env this r s)))))"
proof -
  let ?\<sigma> = "\<lparr>req = handed_req env this r s j, res = handed_res this s j, idx = j + 1,
            trace = [Invoked j], pending = [],
            schedule = settle_order env\<rparr>"
  let ?h = "mw_handler (middleware (pushed this) ! j)"
  have run: "snd (handler env this r s) = exec env (pushed this) (ApplyHandler ?h) [] ?\<sigma>"
    by (rule first_hit) (use assms in simp_all)
  obtain evs where evs: "trace (exec env (pushed this) (ApplyHandler ?h) [] ?\<sigma>) = trace ?\<sigma> @ evs"
    "\<forall>i\<in>set (invocations evs). low (ApplyHandler ?h) ?\<sigma> \<le> i"
    "sorted_wrt (<) (invocations evs)"
    using trace_grows[of "ApplyHandler ?h" ?\<sigma> env "pushed this" "[]"] by auto
  have tr: "trace (snd (handler env this r s)) = Invoked j # evs"
    using run evs(1) by simp
  have gt: "j < i" if "i \<in> set (invocations evs)" for i
    using evs(2) that by fastforce
  have "\<not> i < j" if "i \<in> set (invocations evs)" for i
    using gt[OF that] by simp
  then show ?thesis using tr evs(3) gt by auto
qed


theorem first_match_wins_witness:
  "satisfied spec_env (get ''/users/42'' sends) (pathname_of spec_env ''/users/42'') ''GET''
   \<and> trace (snd (handler spec_env overlap_app (incoming ''GET'' ''/users/42'') fresh))
       = [Invoked 1]"
  using first_match_wins[of overlap_app "incoming ''GET'' ''/users/42''" fresh "Suc 0" spec_env]
  by (simp add: overlap_app_def sample_defs handler.simps exec.simps)

text \<open>
  C2 (as amended). For every request whose url starts with a registered mount path, the
  first such path in the order of the keys being non-empty, the dispatcher hands the
  request, unmodified, and the response, to which at most the parent's X-Powered-By header
  has been added, to the handler of that sub-application and stops: the run is the run of
  the sub-application, and the parent's own entries are not consulted, its stored list
  staying as it was. The mount is selected by \<^verbatim>\<open>req.url.startsWith\<close>, a plain
  string prefix.
\<close>

theorem mount_delegation:
  assumes "i < length (apps this)"
    and "startsWith (url r) (fst (apps this ! i))"
    and "\<forall>k<i. \<not> startsWith (url r) (fst (apps this ! k))"
    and "fst (apps this ! i) \<noteq> []"
  shows "snd (handler env this r s) = snd (handler env (snd (apps this ! i)) r (powered this s))
       \<and> middleware (fst (handler env this r s)) = middleware this"
  using subappPath_first[OF assms(1-3)] assms(4)
  by (subst handler.simps, subst (3) handler.simps) (simp add: Let_def split: prod.splits)

theorem mount_delegation_witness:
  "startsWith ''/foobar'' ''/foo''
   \<and> trace (snd (handler spec_env parent_app (incoming ''GET'' ''/foobar'') fresh)) = [Invoked 1]
   \<and> middleware (fst (handler spec_env parent_app (incoming ''GET'' ''/foobar'') fresh))
       = [get ''/foobar'' sends]"
  using mount_delegation[of 0 parent_app "incoming ''GET'' ''/foobar''" spec_env fresh]
  by (simp add: parent_app_def foo_app_def sub_sends_def app_of_def sample_defs
      handler.simps exec.simps)

text \<open>
  C2 as stated fails: /foo is not a loose-match prefix of /foobar, and yet the mount at /foo
  is selected for the request path /foobar, whose dispatch is that of the sub-application.
\<close>

theorem mount_counterexample:
  "\<not> matchLoose_spec ''/foo'' ''/foobar''
   \<and> subappPath parent_app (incoming ''GET'' ''/foobar'') = Some ''/foo''
   \<and> snd (handler spec_env parent_app (incoming ''GET'' ''/foobar'') fresh)
       = snd (handler spec_env foo_app (incoming ''GET'' ''/foobar'') (powered parent_app fresh))"
  by (simp add: parent_app_def foo_app_def sub_sends_def app_of_def sample_defs
      handler.simps exec.simps)

text \<open>
  C3. For every request that is not delegated to a sub-application and arrives with an
  unfinished response, in an application whose no-match handler is the one the
  constructor builds by default (the error handler bound to the value
  \<^verbatim>\<open>{ code: 404 }\<close>): if none of the entries registered before the first terminal
  no-match entry of the list is satisfied by the request, the error handler is invoked
  exactly once, with \<^verbatim>\<open>{ code: 404 }\<close> and the request and response as the walk
  has left them, and the handler of no registered entry is invoked. The whole run is the
  invocation of the terminal entry, which is that call of the error handler. The terminal
  entry is a middleware entry at \<^verbatim>\<open>'/'\<close>: the loose matcher, a parameter here, has to
  accept that pattern for the pathname of the request.
\<close>

theorem no_match_reaches_sink:
  assumes "subappPath this r = None \<or> subappPath this r = Some []"
    and "\<not> writableEnded s"
    and "noMatchHandler this = Bound (onError this) not_found"
    and "matchLoose env ''/'' (pathname_of env (url r))"
    and "j \<le> length (middleware this)"
    and "(middleware this @ [noMatchMW this]) ! j = noMatchMW this"
    and "\<forall>i<j. \<not> satisfied env (middleware this ! i) (pathname_of env (url r)) (req_method r)"
  shows "trace (snd (handler env this r s)) =
           [Invoked j, Sink not_found (handed_req env this r s j) (handed_res this s j)]
       \<and> res (snd (handler env this r s)) =
           onError this not_found (handed_req env this r s j) (handed_res this s j)"
proof -
  let ?mw = "middleware this @ [noMatchMW this]"
  have sat: "satisfied env (?mw ! j) (pathname_of env (url r)) (req_method r)"
    using assms(4,6) by (simp add: satisfied_def noMatchMW_def)
  have before: "\<forall>i<j. \<not> satisfied env (?mw ! i) (pathname_of env (url r)) (req_method r)"
    using assms(5,7) by (simp add: nth_append)
  have "snd (handler env this r s) =
         exec env (pushed this) (ApplyHandler (mw_handler (middleware (pushed this) ! j))) []
           \<lparr>req = handed_req env this r s j, res = handed_res this s j, idx = j + 1,
            trace = [Invoked j], pending = [],
            schedule = settle_order env\<rparr>"
    by (rule first_hit) (use assms(1,2,5) sat before in simp_all)
  moreover have "mw_handler (middleware (pushed this) ! j) = Bound (onError this) not_found"
    using assms(3,6) by (simp add: noMatchMW_def)
  ultimately show ?thesis by (simp add: exec.simps)
qed

theorem no_match_reaches_sink_witness:
  "sinks (trace (snd (handler spec_env api_app (incoming ''GET'' ''/'') fresh))) = [not_found]
   \<and> invocations (trace (snd (handler spec_env api_app (incoming ''GET'' ''/'') fresh))) = [3]
   \<and> statusCode (res (snd (handler spec_env api_app (incoming ''GET'' ''/'') fresh))) = 404"
  using no_match_reaches_sink[of api_app "incoming ''GET'' ''/''" fresh spec_env 3]
  by (simp add: api_app_def sample_defs handed_req_def handed_res_def hit_req_def hit_res_def
      miss_def eval_nat_numeral All_less_Suc)

text \<open>
  C4. Once the response is finished, no entry's handler is invoked any more for that
  request, whatever remains. From every control point of the dispatcher other than the
  passage from the finished-check of \<^verbatim>\<open>loop\<close> to the handler call it guards (which
  is only entered with an unfinished response and runs in one piece), with any call stack
  of handlers waiting for their continuation to return, any pending asynchronous
  continuations in any order of resumption and any position of the cursor, the rest of
  the run invokes no handler and no error handler, does not move the cursor and leaves
  request and response as they are. In particular this is so from the moment a handler
  finishes the response, whatever the rest of its script and of the run. The check of
  the finished flag that \<^verbatim>\<open>loop\<close> makes before every step is what stops each
  continuation: with a finished response \<^verbatim>\<open>loop\<close> returns at once.
\<close>

theorem finished_stops_the_walk:
  "(writableEnded (res \<sigma>) \<and> outside_handle c \<longrightarrow>
      invocations (trace (exec env this c ks \<sigma>)) = invocations (trace \<sigma>)
      \<and> sinks (trace (exec env this c ks \<sigma>)) = sinks (trace \<sigma>)
      \<and> idx (exec env this c ks \<sigma>) = idx \<sigma>
      \<and> req (exec env this c ks \<sigma>) = req \<sigma>
      \<and> res (exec env this c ks \<sigma>) = res \<sigma>)
   \<and> invocations (trace (exec env this (Run a (End # as)) ks \<tau>)) = invocations (trace \<tau>)
   \<and> sinks (trace (exec env this (Run a (End # as)) ks \<tau>)) = sinks (trace \<tau>)
   \<and> idx (exec env this (Run a (End # as)) ks \<tau>) = idx \<tau>
   \<and> (writableEnded (res \<sigma>) \<longrightarrow> exec env this Loop ks \<sigma> = exec env this Return ks \<sigma>)"
proof (intro conjI impI)
  assume h: "writableEnded (res \<sigma>) \<and> outside_handle c"
  then have w: "writableEnded (res \<sigma>)" and o: "outside_handle c" by simp_all
  note frozen = ended_silent[OF w o, where env = env and this = this and ks = ks]
  show "invocations (trace (exec env this c ks \<sigma>)) = invocations (trace \<sigma>)"
    using frozen(1) .
  show "sinks (trace (exec env this c ks \<sigma>)) = sinks (trace \<sigma>)"
    using frozen(2) .
  show "idx (exec env this c ks \<sigma>) = idx \<sigma>"
    using frozen(5) .
  show "req (exec env this c ks \<sigma>) = req \<sigma>"
    using frozen(3) .
  show "res (exec env this c ks \<sigma>) = res \<sigma>"
    using frozen(4) .
next
  let ?\<tau>' = "\<tau>\<lparr>res := (res \<tau>)\<lparr>writableEnded := True\<rparr>\<rparr>"
  have step: "exec env this (Run a (End # as)) ks \<tau> = exec env this (Run a as) ks ?\<tau>'"
    by (simp add: exec.simps(6))
  have w: "writableEnded (res ?\<tau>')" by simp
  note frozen = ended_silent[OF w, where c = "Run a as" and env = env and this = this and ks = ks]
  show "invocations (trace (exec env this (Run a (End # as)) ks \<tau>)) = invocations (trace \<tau>)"
    using frozen(1) step by simp
  show "sinks (trace (exec env this (Run a (End # as)) ks \<tau>)) = sinks (trace \<tau>)"
    using frozen(2) step by simp
  show "idx (exec env this (Run a (End # as)) ks \<tau>) = idx \<tau>"
    using frozen(5) step by simp
next
  assume "writableEnded (res \<sigma>)"
  then show "exec env this Loop ks \<sigma> = exec env this Return ks \<sigma>"
    by (simp add: exec.simps(1))
qed

theorem finished_stops_the_walk_witness:
  "writableEnded (res finished_state)
   \<and> invocations (trace (exec spec_env (pushed (app_of [use ''/'' sends, use ''/'' sends]))
        (Run False [Call_next Undefined, Call_next (JStr ''error'')])
        [(False, [Call_next Undefined])] finished_state)) = [0]
   \<and> invocations (trace (exec spec_env (pushed (app_of [use ''/'' sends, use ''/'' sends]))
        (Run False [End, Call_next Undefined, Call_next (JStr ''error'')])
        [(False, [Call_next Undefined])] open_state)) = [0]"
  using finished_stops_the_walk[where \<sigma> = finished_state
      and c = "Run False [Call_next Undefined, Call_next (JStr ''error'')]" and env = spec_env
      and this = "pushed (app_of [use ''/'' sends, use ''/'' sends])"
      and ks = "[(False, [Call_next Undefined])]" and \<tau> = open_state and a = False
      and as = "[Call_next Undefined, Call_next (JStr ''error'')]"]
  by (simp add: finished_state_def open_state_def fresh_def)

text \<open>
  C5 (as amended). When the continuation is invoked with a truthy error: if the response
  is not finished, the error handler is invoked with that error and the request and
  response, and the call returns to its caller without running any entry; if the error
  handler finishes the response, nothing else follows for the request (no handler, no
  second call of the error handler, no move of the cursor); if the response is already
  finished, the error is discarded and no handler runs.
\<close>

theorem continuation_with_error:
  assumes "truthy err"
  shows "(\<not> writableEnded (res \<sigma>) \<longrightarrow>
            exec env this (NextWithReqAndRes err) ks \<sigma> =
            exec env this Return ks
              (\<sigma>\<lparr>res := onError this err (req \<sigma>) (res \<sigma>),
                 trace := trace \<sigma> @ [Sink err (req \<sigma>) (res \<sigma>)]\<rparr>))
       \<and> (\<not> writableEnded (res \<sigma>) \<and> writableEnded (onError this err (req \<sigma>) (res \<sigma>)) \<longrightarrow>
            invocations (trace (exec env this (NextWithReqAndRes err) ks \<sigma>))
              = invocations (trace \<sigma>)
            \<and> sinks (trace (exec env this (NextWithReqAndRes err) ks \<sigma>))
              = sinks (trace \<sigma>) @ [err]
            \<and> idx (exec env this (NextWithReqAndRes err) ks \<sigma>) = idx \<sigma>)
       \<and> (writableEnded (res \<sigma>) \<longrightarrow>
            invocations (trace (exec env this (NextWithReqAndRes err) ks \<sigma>))
              = invocations (trace \<sigma>)
            \<and> sinks (trace (exec env this (NextWithReqAndRes err) ks \<sigma>)) = sinks (trace \<sigma>)
            \<and> idx (exec env this (NextWithReqAndRes err) ks \<sigma>) = idx \<sigma>
            \<and> res (exec env this (NextWithReqAndRes err) ks \<sigma>) = res \<sigma>)"
proof (intro conjI impI)
  let ?\<sigma>' = "\<sigma>\<lparr>res := onError this err (req \<sigma>) (res \<sigma>),
                trace := trace \<sigma> @ [Sink err (req \<sigma>) (res \<sigma>)]\<rparr>"
  show step: "exec env this (NextWithReqAndRes err) ks \<sigma> = exec env this Return ks ?\<sigma>'"
    if "\<not> writableEnded (res \<sigma>)"
    using that assms by (simp add: exec.simps(10))
  {
    assume fin: "\<not> writableEnded (res \<sigma>) \<and> writableEnded (onError this err (req \<sigma>) (res \<sigma>))"
    then have e: "exec env this (NextWithReqAndRes err) ks \<sigma> = exec env this Return ks ?\<sigma>'"
      using step by simp
    have w: "writableEnded (res ?\<sigma>')" using fin by simp
    show "invocations (trace (exec env this (NextWithReqAndRes err) ks \<sigma>)) = invocations (trace \<sigma>)"
      using ended_silent(1)[OF w, where c = Return and env = env and this = this and ks = ks] e by (simp add: invocations_append)
    show "sinks (trace (exec env this (NextWithReqAndRes err) ks \<sigma>)) = sinks (trace \<sigma>) @ [err]"
      using ended_silent(2)[OF w, where c = Return and env = env and this = this and ks = ks] e by (simp add: sinks_append)
    show "idx (exec env this (NextWithReqAndRes err) ks \<sigma>) = idx \<sigma>"
      using ended_silent(5)[OF w, where c = Return and env = env and this = this and ks = ks] e by simp
  }
  {
    assume w: "writableEnded (res \<sigma>)"
    show "invocations (trace (exec env this (NextWithReqAndRes err) ks \<sigma>)) = invocations (trace \<sigma>)"
      using ended_silent(1)[OF w, where c = "NextWithReqAndRes err" and env = env and this = this and ks = ks] by simp
    show "sinks (trace (exec env this (NextWithReqAndRes err) ks \<sigma>)) = sinks (trace \<sigma>)"
      using ended_silent(2)[OF w, where c = "NextWithReqAndRes err" and env = env and this = this and ks = ks] by simp
    show "idx (exec env this (NextWithReqAndRes err) ks \<sigma>) = idx \<sigma>"
      using ended_silent(5)[OF w, where c = "NextWithReqAndRes err" and env = env and this = this and ks = ks] by simp
    show "res (exec env this (NextWithReqAndRes err) ks \<sigma>) = res \<sigma>"
      using ended_silent(4)[OF w, where c = "NextWithReqAndRes err" and env = env and this = this and ks = ks] by simp
  }
qed

theorem continuation_with_error_witness:
  "truthy (JStr ''boom'')
   \<and> sinks (trace (exec spec_env (pushed (app_of [use ''/'' sends, use ''/'' sends]))
        (NextWithReqAndRes (JStr ''boom'')) [(False, [Call_next Undefined])] open_state))
     = [JStr ''boom'']
   \<and> invocations (trace (exec spec_env (pushed (app_of [use ''/'' sends, use ''/'' sends]))
        (NextWithReqAndRes (JStr ''boom'')) [(False, [Call_next Undefined])] open_state))
     = [0]"
  using continuation_with_error[where err = "JStr ''boom''" and \<sigma> = open_state
      and this = "pushed (app_of [use ''/'' sends, use ''/'' sends])" and env = spec_env
      and ks = "[(False, [Call_next Undefined])]"]
  by (simp add: open_state_def app_of_def sample_defs exec.simps)

text \<open>
  C5 as stated fails: the non-null error \<^verbatim>\<open>0\<close> is not an error for the
  continuation, and the walk goes on to the next entry; and with an error handler that
  leaves the response open, a handler that calls the continuation with an error twice and
  then without one has the error handler invoked twice and the walk resumed.
\<close>

theorem continuation_with_error_counterexample:
  "JNum 0 \<noteq> Null \<and> JNum 0 \<noteq> Undefined
   \<and> trace (snd (handler spec_env (app_of [use ''/'' passes_zero, use ''/'' sends])
                 (incoming ''GET'' ''/'') fresh)) = [Invoked 0, Invoked 1]
   \<and> invocations (trace (snd (handler spec_env
                 (open_sink_app [use ''/'' calls_next_twice, use ''/'' sends])
                 (incoming ''GET'' ''/'') fresh))) = [0, 1]
   \<and> sinks (trace (snd (handler spec_env
                 (open_sink_app [use ''/'' calls_next_twice, use ''/'' sends])
                 (incoming ''GET'' ''/'') fresh))) = [JStr ''first'', JStr ''second'']"
  by (simp add: app_of_def open_sink_app_def passes_zero_def calls_next_twice_def sample_defs
      handler.simps exec.simps)

text \<open>
  C6 (as amended). For every asynchronous handler that throws, at whatever point of its
  execution, the wrapper catches the thrown value and calls the continuation with it in a
  later turn of the event loop. When that turn comes, the rest of the run is that of a
  synchronous handler which calls the continuation with the value at that moment; if the
  value is truthy and the response is not finished then, the error handler is invoked
  once with the value and the request and response of that moment. In particular, when
  the first entry that a request satisfies has an asynchronous handler that throws a
  truthy value, at once or after any number of awaits, the whole run is the invocation of
  that handler followed by exactly one invocation of the error handler with the thrown
  value, and so is the run when that handler is synchronous and only calls the
  continuation with the value.
\<close>

theorem async_throw_reaches_sink:
  "exec env this (Run True (Throw v # post)) ks \<sigma> =
     exec env this Return ks (\<sigma>\<lparr>pending := pending \<sigma> @ [(False, [Call_next v])]\<rparr>)
   \<and> (pending \<tau> \<noteq> [] \<and> m = next_pending (schedule \<tau>) (length (pending \<tau>))
        \<and> pending \<tau> ! m = (False, [Call_next v]) \<longrightarrow>
        exec env this Return [] \<tau> =
          exec env this (ApplyHandler (Fn nm False (\<lambda>r s. [Call_next v]))) []
            (\<tau>\<lparr>pending := take m (pending \<tau>) @ drop (Suc m) (pending \<tau>),
               schedule := tl (schedule \<tau>)\<rparr>)
        \<and> (truthy v \<and> \<not> writableEnded (res \<tau>) \<longrightarrow>
             exec env this Return [] \<tau> =
               exec env this Return []
                 (\<tau>\<lparr>pending := take m (pending \<tau>) @ drop (Suc m) (pending \<tau>),
                    schedule := tl (schedule \<tau>),
                    res := onError this v (req \<tau>) (res \<tau>),
                    trace := trace \<tau> @ [Sink v (req \<tau>) (res \<tau>)]\<rparr>)))
   \<and> ((subappPath app r = None \<or> subappPath app r = Some [])
        \<and> \<not> writableEnded s
        \<and> j < length (middleware app @ [noMatchMW app])
        \<and> satisfied env ((middleware app @ [noMatchMW app]) ! j)
             (pathname_of env (url r)) (req_method r)
        \<and> (\<forall>i<j. \<not> satisfied env ((middleware app @ [noMatchMW app]) ! i)
             (pathname_of env (url r)) (req_method r))
        \<and> mw_handler ((middleware app @ [noMatchMW app]) ! j) = Fn n a body
        \<and> ((a \<and> body (handed_req env app r s j) (handed_res app s j)
                  = replicate k Await @ Throw v # post)
           \<or> (\<not> a \<and> body (handed_req env app r s j) (handed_res app s j) = [Call_next v]))
        \<and> truthy v \<longrightarrow>
        trace (snd (handler env app r s)) =
          [Invoked j, Sink v (handed_req env app r s j) (handed_res app s j)]
        \<and> res (snd (handler env app r s)) =
          onError app v (handed_req env app r s j) (handed_res app s j))"
proof (intro conjI impI)
  show "exec env this (Run True (Throw v # post)) ks \<sigma> =
     exec env this Return ks (\<sigma>\<lparr>pending := pending \<sigma> @ [(False, [Call_next v])]\<rparr>)"
    by (simp add: exec.simps(8))
next
  let ?\<tau>' = "\<tau>\<lparr>pending := take m (pending \<tau>) @ drop (Suc m) (pending \<tau>),
               schedule := tl (schedule \<tau>)\<rparr>"
  assume pick: "pending \<tau> \<noteq> [] \<and> m = next_pending (schedule \<tau>) (length (pending \<tau>))
        \<and> pending \<tau> ! m = (False, [Call_next v])"
  then have ne: "pending \<tau> \<noteq> []"
    and at: "pending \<tau> ! next_pending (schedule \<tau>) (length (pending \<tau>)) = (False, [Call_next v])"
    and m: "m = next_pending (schedule \<tau>) (length (pending \<tau>))"
    by auto
  have resume: "exec env this Return [] \<tau> = exec env this (Run False [Call_next v]) [] ?\<tau>'"
    using ne by (simp add: exec.simps(12) Let_def at m)
  then show "exec env this Return [] \<tau> =
          exec env this (ApplyHandler (Fn nm False (\<lambda>r s. [Call_next v]))) [] ?\<tau>'"
    by (simp add: exec.simps(3))
  assume "truthy v \<and> \<not> writableEnded (res \<tau>)"
  then show "exec env this Return [] \<tau> =
               exec env this Return []
                 (\<tau>\<lparr>pending := take m (pending \<tau>) @ drop (Suc m) (pending \<tau>),
                    schedule := tl (schedule \<tau>),
                    res := onError this v (req \<tau>) (res \<tau>),
                    trace := trace \<tau> @ [Sink v (req \<tau>) (res \<tau>)]\<rparr>)"
    using resume by (simp add: exec.simps(7) exec.simps(10) exec.simps(11) exec.simps(5))
next
  assume h: "(subappPath app r = None \<or> subappPath app r = Some [])
        \<and> \<not> writableEnded s
        \<and> j < length (middleware app @ [noMatchMW app])
        \<and> satisfied env ((middleware app @ [noMatchMW app]) ! j)
             (pathname_of env (url r)) (req_method r)
        \<and> (\<forall>i<j. \<not> satisfied env ((middleware app @ [noMatchMW app]) ! i)
             (pathname_of env (url r)) (req_method r))
        \<and> mw_handler ((middleware app @ [noMatchMW app]) ! j) = Fn n a body
        \<and> ((a \<and> body (handed_req env app r s j) (handed_res app s j)
                  = replicate k Await @ Throw v # post)
           \<or> (\<not> a \<and> body (handed_req env app r s j) (handed_res app s j) = [Call_next v]))
        \<and> truthy v"
  have e2e: "trace (snd (handler env app r s)) =
          [Invoked j, Sink v (handed_req env app r s j) (handed_res app s j)]
        \<and> res (snd (handler env app r s)) =
          onError app v (handed_req env app r s j) (handed_res app s j)"
    by (rule async_throw_end_to_end[where n = n and a = a and body = body and k = k and post = post])
       (use h in simp_all)
  show "trace (snd (handler env app r s)) =
          [Invoked j, Sink v (handed_req env app r s j) (handed_res app s j)]"
    using e2e by simp
  show "res (snd (handler env app r s)) =
          onError app v (handed_req env app r s j) (handed_res app s j)"
    using e2e by simp
qed

theorem async_throw_reaches_sink_witness:
  "truthy (JStr ''boom'')
   \<and> sinks (trace (snd (handler spec_env (app_of [use ''/'' throws_async, use ''/'' sends])
                 (incoming ''GET'' ''/'') fresh))) = [JStr ''boom'']
   \<and> invocations (trace (snd (handler spec_env (app_of [use ''/'' throws_async, use ''/'' sends])
                 (incoming ''GET'' ''/'') fresh))) = [0]
   \<and> sinks (trace (exec spec_env (pushed (app_of [use ''/'' sends])) Return [] caught_state))
       = [JStr ''boom'']"
  using async_throw_reaches_sink[where env = spec_env
      and this = "pushed (app_of [use ''/'' sends])" and v = "JStr ''boom''" and post = "[]"
      and ks = "[]" and \<sigma> = caught_state and \<tau> = caught_state and m = 1 and nm = "''calls''"
      and app = "app_of [use ''/'' throws_async, use ''/'' sends]"
      and r = "incoming ''GET'' ''/''" and s = fresh and j = 0 and n = "''throws_async''"
      and a = True and body = "\<lambda>r s. [Await, Throw (JStr ''boom'')]" and k = 1]
  by (simp add: app_of_def throws_async_def caught_state_def sample_defs handler.simps
      exec.simps handed_req_def handed_res_def hit_req_def hit_res_def miss_def)

text \<open>
  C6 as stated fails: an asynchronous handler that finishes the response and then throws
  leads to no invocation of the error handler; one that throws \<^verbatim>\<open>undefined\<close> leads
  to the next entry being invoked, and to no invocation of the error handler either.
\<close>

theorem async_throw_counterexample:
  "sinks (trace (snd (handler spec_env (app_of [use ''/'' sends_then_throws])
                 (incoming ''GET'' ''/'') fresh))) = []
   \<and> trace (snd (handler spec_env (app_of [use ''/'' rejects_undefined, use ''/'' sends])
                 (incoming ''GET'' ''/'') fresh)) = [Invoked 0, Invoked 1]"
  by (simp add: app_of_def sends_then_throws_def rejects_undefined_def sample_defs
      handler.simps exec.simps)

text \<open>
  C7 (as amended). A synchronous handler that throws is not redirected to the
  continuation: \<^verbatim>\<open>applyHandler\<close> wraps only handlers tagged AsyncFunction in
  try/catch. Wherever a synchronous handler throws, its invocation ends there, nobody
  catches the value, and control returns to whoever called the continuation that led to
  the handler. In particular, when the first entry that a request satisfies has a
  synchronous handler that throws, the whole run is the invocation of that handler and
  the uncaught value: the error handler is not invoked, the cursor stays behind that
  entry and the response is left as the handler received it.
\<close>

theorem sync_throw_is_not_redirected:
  "exec env this (Run False (Throw v # post)) ks \<sigma> =
     exec env this Return ks (\<sigma>\<lparr>trace := trace \<sigma> @ [Uncaught v]\<rparr>)
   \<and> ((subappPath app r = None \<or> subappPath app r = Some [])
        \<and> \<not> writableEnded s
        \<and> j < length (middleware app @ [noMatchMW app])
        \<and> satisfied env ((middleware app @ [noMatchMW app]) ! j)
             (pathname_of env (url r)) (req_method r)
        \<and> (\<forall>i<j. \<not> satisfied env ((middleware app @ [noMatchMW app]) ! i)
             (pathname_of env (url r)) (req_method r))
        \<and> mw_handler ((middleware app @ [noMatchMW app]) ! j) = Fn n False body
        \<and> body (handed_req env app r s j) (handed_res app s j) = Throw v # post \<longrightarrow>
        trace (snd (handler env app r s)) = [Invoked j, Uncaught v]
        \<and> sinks (trace (snd (handler env app r s))) = []
        \<and> idx (snd (handler env app r s)) = j + 1
        \<and> res (snd (handler env app r s)) = handed_res app s j)"
proof (intro conjI impI)
  show "exec env this (Run False (Throw v # post)) ks \<sigma> =
     exec env this Return ks (\<sigma>\<lparr>trace := trace \<sigma> @ [Uncaught v]\<rparr>)"
    by (simp add: exec.simps(8))
next
  assume h: "(subappPath app r = None \<or> subappPath app r = Some [])
        \<and> \<not> writableEnded s
        \<and> j < length (middleware app @ [noMatchMW app])
        \<and> satisfied env ((middleware app @ [noMatchMW app]) ! j)
             (pathname_of env (url r)) (req_method r)
        \<and> (\<forall>i<j. \<not> satisfied env ((middleware app @ [noMatchMW app]) ! i)
             (pathname_of env (url r)) (req_method r))
        \<and> mw_handler ((middleware app @ [noMatchMW app]) ! j) = Fn n False body
        \<and> body (handed_req env app r s j) (handed_res app s j) = Throw v # post"
  have e2e: "trace (snd (handler env app r s)) = [Invoked j, Uncaught v]
       \<and> sinks (trace (snd (handler env app r s))) = []
       \<and> idx (snd (handler env app r s)) = j + 1
       \<and> res (snd (handler env app r s)) = handed_res app s j"
    by (rule sync_throw_end_to_end[where n = n and body = body and post = post])
       (use h in simp_all)
  show "trace (snd (handler env app r s)) = [Invoked j, Uncaught v]" using e2e by simp
  show "sinks (trace (snd (handler env app r s))) = []" using e2e by simp
  show "idx (snd (handler env app r s)) = j + 1" using e2e by simp
  show "res (snd (handler env app r s)) = handed_res app s j" using e2e by simp
qed

theorem sync_throw_is_not_redirected_witness:
  "trace (snd (handler spec_env (app_of [use ''/'' throws_sync, use ''/'' sends])
                 (incoming ''GET'' ''/'') fresh))
   = [Invoked 0, Uncaught (JStr ''boom'')]"
  using sync_throw_is_not_redirected[where env = spec_env
      and app = "app_of [use ''/'' throws_sync, use ''/'' sends]"
      and r = "incoming ''GET'' ''/''" and s = fresh and j = 0 and n = "''throws_sync''"
      and body = "\<lambda>r s. [Throw (JStr ''boom'')]" and v = "JStr ''boom''" and post = "[]"
      and this = "pushed (app_of [use ''/'' sends])" and ks = "[]" and \<sigma> = open_state]
  by (simp add: app_of_def throws_sync_def open_state_def sample_defs handler.simps exec.simps
      handed_req_def handed_res_def hit_req_def hit_res_def miss_def)

text \<open>
  C7 as stated fails: a synchronous handler throws a string on a request for /, and the
  error handler is never invoked.
\<close>

theorem sync_throw_counterexample:
  "sinks (trace (snd (handler spec_env (app_of [use ''/'' throws_sync, use ''/'' sends])
                 (incoming ''GET'' ''/'') fresh))) = []
   \<and> trace (snd (handler spec_env (app_of [use ''/'' throws_sync, use ''/'' sends])
                 (incoming ''GET'' ''/'') fresh)) = [Invoked 0, Uncaught (JStr ''boom'')]"
  by (simp add: app_of_def throws_sync_def sample_defs handler.simps exec.simps)

text \<open>
  C8. Restoring \<^verbatim>\<open>req.url\<close> after a non-matching entry is lossless: for every
  unfinished request and every \<open>n\<close>, when the next \<open>n\<close> entries from the cursor on do
  not match, the walk arrives at the entry after them with the request that \<open>n\<close>
  attempts have stripped and restored, and the url of that request is exactly the url
  before the attempts.
\<close>

theorem url_restored_after_misses:
  assumes "\<not> writableEnded (res \<sigma>)"
    and "idx \<sigma> + n \<le> length (middleware this)"
    and "\<forall>k<n. \<not> satisfied env (middleware this ! (idx \<sigma> + k))
                   (pathname_of env (url (req \<sigma>))) (req_method (req \<sigma>))"
  shows "exec env this Loop ks \<sigma> =
         exec env this Loop ks
           (\<sigma>\<lparr>idx := idx \<sigma> + n,
              req := foldl (miss env this (res \<sigma>)) (req \<sigma>)
                       (take n (drop (idx \<sigma>) (middleware this)))\<rparr>)
       \<and> url (foldl (miss env this (res \<sigma>)) (req \<sigma>)
                (take n (drop (idx \<sigma>) (middleware this)))) = url (req \<sigma>)"
  using loop_skip[OF assms] by (simp add: foldl_miss_url)

theorem url_restored_after_misses_witness:
  "url (foldl (miss spec_env api_app fresh) (incoming ''GET'' ''/nothing'')
          (take 3 (drop 0 (middleware api_app)))) = ''/nothing''
   \<and> path (foldl (miss spec_env api_app fresh) (incoming ''GET'' ''/nothing'')
          (take 3 (drop 0 (middleware api_app)))) = ''/''"
  using url_restored_after_misses[where \<sigma> = "\<lparr>req = incoming ''GET'' ''/nothing'', res = fresh,
      idx = 0, trace = [], pending = [], schedule = []\<rparr>" and n = 3 and this = api_app and env = spec_env
      and ks = "[]"]
  by (simp add: api_app_def sample_defs miss_def eval_nat_numeral All_less_Suc)

text \<open>
  C9. At every entry attempt the pathname used for matching is to be derived from the URL
  the request arrived with, so that prefix stripping by an earlier entry does not affect
  which later entries match. The code breaks this: on the request GET /api/users, to an
  application with a middleware at /api that calls the continuation and then a route for
  /api/users, the request satisfies the route by the URL it arrived with, but the
  middleware leaves the url stripped to /users, the attempt at the route takes that url
  as its \<^verbatim>\<open>originalUrl\<close>, and the handler of the route is never invoked.
\<close>

theorem stripped_url_hides_later_route:
  "satisfied spec_env (middleware api_app ! 1) (pathname_of spec_env ''/api/users'') ''GET''
   \<and> trace (snd (handler spec_env api_app (incoming ''GET'' ''/api/users'') fresh)) = [Invoked 0]
   \<and> originalUrl (req (snd (handler spec_env api_app (incoming ''GET'' ''/api/users'') fresh)))
       = ''/users''"
  by (simp add: api_app_def sample_defs handler.simps exec.simps)

text \<open>
  C10. A dispatch that is not delegated to a sub-application appends the terminal
  no-match entry to the application's stored middleware list itself: the list that the
  application holds after the dispatch is the old list with that one entry added at its
  end, and it is this very list that the walk of the request runs over, from index 0.
  The stored list therefore grows by one entry with each such dispatch.
\<close>

theorem dispatch_appends_terminal:
  assumes "subappPath this r = None \<or> subappPath this r = Some []"
  shows "middleware (fst (handler env this r s)) = middleware this @ [noMatchMW this]
       \<and> snd (handler env this r s) =
           exec env (fst (handler env this r s)) Loop []
             \<lparr>req = r, res = powered this s, idx = 0, trace = [], pending = [],
            schedule = settle_order env\<rparr>"
  using assms by (simp add: handler_walk walk_def pushed_def Let_def)

theorem dispatch_appends_terminal_witness:
  "subappPath api_app (incoming ''GET'' ''/'') = None
   \<and> middleware (fst (handler spec_env api_app (incoming ''GET'' ''/'') fresh))
       = [use ''/api'' passes, get ''/api/users'' sends, get ''/users/:id'' sends,
          noMatchMW api_app]"
  using dispatch_appends_terminal[of api_app "incoming ''GET'' ''/''" spec_env fresh]
  by (simp add: subappPath_def api_app_def new_App_def no_options_def Let_def noMatchMW_def)

end
